theory Spec2Isabelle
  imports Complex_Main "HOL-Library.AList"
begin

section \<open>JavaScript values\<close>

text \<open>
  A descriptor is what \<^verbatim>\<open>response.json()\<close> returns: null, a boolean, a number, a string,
  an array or an object. \<open>JUndefined\<close> is the value of reading a property an object does
  not have. A number is the rational value of the parsed double (both zeros are \<open>0\<close>);
  the loader only tests numbers for truthiness. An object is the list of its own
  properties in insertion order, with distinct keys; \<open>map_of\<close> reads one.
\<close>

datatype jsval =
    JUndefined
  | JNull
  | JBool bool
  | JNum rat
  | JStr string
  | JArr "jsval list"
  | JObj "(string \<times> jsval) list"

datatype error =
    TypeError
  | External string
  | GLTFLoaderNotAvailable
  | GLTFLoaderMissing
  | MaxPollTimeReached string

text \<open>Truthiness, as the guards \<^verbatim>\<open>a && b\<close>, \<^verbatim>\<open>a || b\<close> and \<^verbatim>\<open>if (a)\<close> read it.\<close>

fun truthy :: "jsval \<Rightarrow> bool" where
  "truthy JUndefined = False"
| "truthy JNull = False"
| "truthy (JBool b) = b"
| "truthy (JNum n) = (n \<noteq> 0)"
| "truthy (JStr s) = (s \<noteq> [])"
| "truthy (JArr xs) = True"
| "truthy (JObj fs) = True"

text \<open>
  The property read \<^verbatim>\<open>v.k\<close>. Reading a property of \<^verbatim>\<open>undefined\<close> or \<^verbatim>\<open>null\<close> throws a
  TypeError. The names the loader reads (\<^verbatim>\<open>texturedMesh\<close>, \<^verbatim>\<open>url\<close>, \<^verbatim>\<open>splatFiles\<close>, ...)
  are not defined on the prototypes of booleans, numbers, strings, arrays and objects,
  so reading them from a value that does not own them gives \<^verbatim>\<open>undefined\<close>.
\<close>

fun member :: "jsval \<Rightarrow> string \<Rightarrow> error + jsval" where
  "member JUndefined k = Inl TypeError"
| "member JNull k = Inl TypeError"
| "member (JObj fs) k = Inr (case map_of fs k of Some v \<Rightarrow> v | None \<Rightarrow> JUndefined)"
| "member v k = Inr JUndefined"

text \<open>The chained read \<^verbatim>\<open>v.k1.k2...\<close>, left to right.\<close>

fun path :: "jsval \<Rightarrow> string list \<Rightarrow> error + jsval" where
  "path v [] = Inr v"
| "path v (k # ks) = (case member v k of Inl e \<Rightarrow> Inl e | Inr w \<Rightarrow> path w ks)"

text \<open>
  \<^verbatim>\<open>a && b\<close>, \<^verbatim>\<open>a || b\<close> and \<^verbatim>\<open>if (a) b else c\<close> over expressions that may throw: the
  second operand is evaluated (and may throw) only when the first one selects it.
\<close>

definition js_and :: "error + jsval \<Rightarrow> error + jsval \<Rightarrow> error + jsval" where
  "js_and a b = (case a of Inl e \<Rightarrow> Inl e | Inr v \<Rightarrow> if truthy v then b else Inr v)"

definition js_or :: "error + jsval \<Rightarrow> error + jsval \<Rightarrow> error + jsval" where
  "js_or a b = (case a of Inl e \<Rightarrow> Inl e | Inr v \<Rightarrow> if truthy v then Inr v else b)"

definition js_if :: "error + jsval \<Rightarrow> error + 'a \<Rightarrow> error + 'a \<Rightarrow> error + 'a" where
  "js_if c t e = (case c of Inl err \<Rightarrow> Inl err | Inr v \<Rightarrow> if truthy v then t else e)"

definition bind :: "error + 'a \<Rightarrow> ('a \<Rightarrow> error + 'b) \<Rightarrow> error + 'b" where
  "bind m f = (case m of Inl e \<Rightarrow> Inl e | Inr x \<Rightarrow> f x)"

section \<open>URL resolvers\<close>

text \<open>\<^verbatim>\<open>resolveMeshUrl(modelData)\<close>: texturedMesh, then optimizedMesh, then mesh.\<close>

definition resolveMeshUrl :: "jsval \<Rightarrow> error + jsval" where
  "resolveMeshUrl modelData =
     js_if (js_and (path modelData [''texturedMesh''])
                   (path modelData [''texturedMesh'', ''url'']))
       (path modelData [''texturedMesh'', ''url''])
    (js_if (js_and (path modelData [''optimizedMesh''])
                   (path modelData [''optimizedMesh'', ''url'']))
       (path modelData [''optimizedMesh'', ''url''])
    (js_if (js_and (path modelData [''mesh''])
                   (path modelData [''mesh'', ''url'']))
       (path modelData [''mesh'', ''url''])
       (Inr JNull)))"

record formats =
  glb :: jsval
  obj :: jsval
  fbx :: jsval

text \<open>\<^verbatim>\<open>resolveAllFormats(modelData)\<close>: the mesh URL of the descriptor and of its
  \<^verbatim>\<open>obj\<close> and \<^verbatim>\<open>fbx\<close> sub-descriptors.\<close>

definition resolveAllFormats :: "jsval \<Rightarrow> error + formats" where
  "resolveAllFormats modelData =
     bind (resolveMeshUrl modelData) (\<lambda>g.
     bind (js_if (path modelData [''obj''])
             (bind (path modelData [''obj'']) resolveMeshUrl) (Inr JNull)) (\<lambda>ob.
     bind (js_if (path modelData [''fbx''])
             (bind (path modelData [''fbx'']) resolveMeshUrl) (Inr JNull)) (\<lambda>fb.
     Inr \<lparr>glb = g, obj = ob, fbx = fb\<rparr>)))"

text \<open>\<^verbatim>\<open>resolveSplatUrl(worldData)\<close>: highRes, then mediumRes, then lowRes, all under
  \<^verbatim>\<open>splatFiles\<close>.\<close>

definition resolveSplatUrl :: "jsval \<Rightarrow> error + jsval" where
  "resolveSplatUrl worldData =
     js_if (path worldData [''splatFiles''])
      (js_if (js_and (path worldData [''splatFiles'', ''highRes''])
                     (path worldData [''splatFiles'', ''highRes'', ''url'']))
         (path worldData [''splatFiles'', ''highRes'', ''url''])
      (js_if (js_and (path worldData [''splatFiles'', ''mediumRes''])
                     (path worldData [''splatFiles'', ''mediumRes'', ''url'']))
         (path worldData [''splatFiles'', ''mediumRes'', ''url''])
      (js_if (js_and (path worldData [''splatFiles'', ''lowRes''])
                     (path worldData [''splatFiles'', ''lowRes'', ''url'']))
         (path worldData [''splatFiles'', ''lowRes'', ''url''])
         (Inr JNull))))
      (Inr JNull)"

record splats =
  lowRes :: jsval
  mediumRes :: jsval
  highRes :: jsval

text \<open>\<^verbatim>\<open>resolveAllSplatUrls(worldData)\<close>, with \<^verbatim>\<open>files = worldData.splatFiles || {}\<close>.\<close>

definition resolveAllSplatUrls :: "jsval \<Rightarrow> error + splats" where
  "resolveAllSplatUrls worldData =
     bind (js_or (path worldData [''splatFiles'']) (Inr (JObj []))) (\<lambda>files.
     bind (js_or (js_and (path files [''lowRes'']) (path files [''lowRes'', ''url'']))
                 (Inr JNull)) (\<lambda>lo.
     bind (js_or (js_and (path files [''mediumRes'']) (path files [''mediumRes'', ''url'']))
                 (Inr JNull)) (\<lambda>me.
     bind (js_or (js_and (path files [''highRes'']) (path files [''highRes'', ''url'']))
                 (Inr JNull)) (\<lambda>hi.
     Inr \<lparr>lowRes = lo, mediumRes = me, highRes = hi\<rparr>))))"

section \<open>Presence of a URL, as the specification words it\<close>

text \<open>
  \<open>lookup fs k\<close> is the value an object with properties \<open>fs\<close> holds under \<open>k\<close>. A
  sub-record carries a URL when it is itself truthy and its \<^verbatim>\<open>url\<close> is truthy;
  \<open>present_url\<close> is that URL, and \<open>first_present\<close> the first one along a ranking.
\<close>

definition lookup :: "(string \<times> jsval) list \<Rightarrow> string \<Rightarrow> jsval" where
  "lookup fs k = (case map_of fs k of Some v \<Rightarrow> v | None \<Rightarrow> JUndefined)"

fun present_url :: "jsval \<Rightarrow> jsval option" where
  "present_url (JObj fs) = (if truthy (lookup fs ''url'') then Some (lookup fs ''url'') else None)"
| "present_url v = None"

fun first_present :: "jsval list \<Rightarrow> jsval" where
  "first_present [] = JNull"
| "first_present (sub # subs) =
     (case present_url sub of Some u \<Rightarrow> u | None \<Rightarrow> first_present subs)"

definition fields_of :: "jsval \<Rightarrow> (string \<times> jsval) list" where
  "fields_of v = (case v of JObj fs \<Rightarrow> fs | _ \<Rightarrow> [])"

section \<open>World results\<close>

record world_result =
  worldId :: string
  splatUrl :: jsval
  splats :: splats
  panoramaUrl :: jsval
  thumbnailUrl :: jsval
  colliderMeshUrl :: jsval
  inputImages :: jsval
  caption :: jsval
  displayName :: jsval
  status :: jsval
  raw :: jsval

text \<open>The \<^verbatim>\<open>result\<close> object that an attempt of \<^verbatim>\<open>loadWorld\<close> builds from a descriptor,
  field by field in the order of the source; any read may throw.\<close>

definition build_result :: "string \<Rightarrow> jsval \<Rightarrow> error + world_result" where
  "build_result wid worldData =
     bind (resolveSplatUrl worldData) (\<lambda>su.
     bind (resolveAllSplatUrls worldData) (\<lambda>allSplats.
     bind (js_or (js_and (path worldData [''panoMedia''])
                         (path worldData [''panoMedia'', ''url''])) (Inr JNull)) (\<lambda>pano.
     bind (js_or (js_and (path worldData [''thumbnailMedia''])
                         (path worldData [''thumbnailMedia'', ''url''])) (Inr JNull)) (\<lambda>thumb.
     bind (js_or (js_and (path worldData [''colliderMesh''])
                         (path worldData [''colliderMesh'', ''url''])) (Inr JNull)) (\<lambda>coll.
     bind (js_or (path worldData [''inputImages'']) (Inr (JArr []))) (\<lambda>imgs.
     bind (js_or (path worldData [''caption'']) (Inr JNull)) (\<lambda>cap.
     bind (js_or (path worldData [''displayName'']) (Inr JNull)) (\<lambda>dn.
     bind (js_or (path worldData [''status'']) (Inr JNull)) (\<lambda>st.
     Inr \<lparr>worldId = wid, splatUrl = su, splats = allSplats, panoramaUrl = pano,
          thumbnailUrl = thumb, colliderMeshUrl = coll, inputImages = imgs,
          caption = cap, displayName = dn, status = st, raw = worldData\<rparr>)))))))))"

section \<open>Engine state\<close>

text \<open>
  Objects of the scene graph, timer handles and attempt closures are identified by
  numbers. One closure is created by each call of \<^verbatim>\<open>_startModelLoad\<close> and by each promise
  executor of \<^verbatim>\<open>loadWorld\<close>; it holds the variables its \<^verbatim>\<open>attempt\<close> function captures.

  The host (\<^verbatim>\<open>window.THREE\<close> and its loader) is a standing condition: it does not change
  while the engine runs. The callbacks a caller passes (\<^verbatim>\<open>onProgress\<close>, \<^verbatim>\<open>onError\<close>,
  \<^verbatim>\<open>onSwap\<close>, \<^verbatim>\<open>onReady\<close>) are observers: each call is recorded in the trace, returns
  normally and does not call the engine from inside a handler. Console warnings are
  left out.
\<close>

type_synonym obj = nat
type_synonym handle = nat
type_synonym tid = nat

text \<open>\<^verbatim>\<open>window.THREE.GLTFLoader\<close>: undefined, defined but falsy, or a loader class.\<close>

datatype presence = Undefined | Falsy | Defined

record host =
  three :: bool
  three_GLTFLoader :: presence

text \<open>The options the polling logic reads; an absent option is \<open>None\<close>, and \<^verbatim>\<open>poll\<close>
  carries its truthiness.\<close>

record options =
  opt_poll :: "bool option"
  opt_pollInterval :: "int option"
  opt_maxPollTime :: "int option"

record model_task =
  m_id :: string
  m_group :: obj
  m_placeholder :: "obj option"
  m_poll :: bool
  m_pollInterval :: int
  m_maxPollTime :: int
  m_startTime :: int

record world_task =
  w_id :: string
  w_poll :: bool
  w_pollInterval :: int
  w_maxPollTime :: int
  w_startTime :: int

datatype closure = ModelAttempt model_task | WorldAttempt world_task

text \<open>An entry of \<^verbatim>\<open>_cache\<close>: \<^verbatim>\<open>{group, loaded}\<close> for a model, \<^verbatim>\<open>{data, ready}\<close> for a
  world; a field the entry does not have reads as \<open>None\<close> or as falsy.\<close>

record cache_entry =
  ce_group :: "obj option"
  ce_loaded :: bool
  ce_data :: "world_result option"
  ce_ready :: bool

text \<open>The promise returned by \<^verbatim>\<open>loadWorld\<close>; the flag \<^verbatim>\<open>resolved\<close> of the source is set
  exactly when the promise is no longer pending.\<close>

datatype promise = Pending | Resolved world_result | Rejected error

text \<open>What the engine does to its collaborators and callbacks, in order.\<close>

datatype effect =
    FetchModel tid string int
  | FetchWorld tid string int
  | LoadGLB tid jsval
  | OnProgress tid jsval
  | OnError tid error
  | OnSwap tid obj jsval
  | OnReady tid world_result
  | Dispose obj

text \<open>
  \<open>timers\<close> are the pending \<^verbatim>\<open>setTimeout\<close> calls (handle, closure, due time), \<open>fetches\<close>
  the outstanding \<^verbatim>\<open>fetchModel\<close>/\<^verbatim>\<open>fetchWorld\<close> promises and \<open>loads\<close> the outstanding
  \<^verbatim>\<open>loadGLB\<close> promises (closure, URL, descriptor), each with the closure that continues
  it. \<open>parent\<close> is the scene graph; \<open>buuModelData g = Some d\<close> stands for
  \<^verbatim>\<open>g._buuLoaded = true\<close> and \<^verbatim>\<open>g._buuModelData = d\<close>. Timer handles are truthy (positive
  numbers in a browser). \<open>cache\<close> is \<^verbatim>\<open>_cache\<close> and \<open>activePolls\<close> is \<^verbatim>\<open>_activePolls\<close>, in
  insertion order; their keys are asset ids, none of which names a property of
  \<^verbatim>\<open>Object.prototype\<close>. The clock \<open>now\<close> is \<^verbatim>\<open>Date.now()\<close>, in milliseconds.
\<close>

record state =
  host :: host
  now :: int
  GLTFLoader_set :: bool
  cache :: "string \<rightharpoonup> cache_entry"
  activePolls :: "(string \<times> handle) list"
  closures :: "tid \<rightharpoonup> closure"
  promises :: "tid \<rightharpoonup> promise"
  next_tid :: tid
  next_handle :: handle
  next_obj :: obj
  timers :: "(handle \<times> tid \<times> int) list"
  fetches :: "tid list"
  loads :: "(tid \<times> jsval \<times> jsval) list"
  parent :: "obj \<rightharpoonup> obj"
  buuModelData :: "obj \<rightharpoonup> jsval"
  trace :: "effect list"

definition init :: "host \<Rightarrow> int \<Rightarrow> state" where
  "init h t0 = \<lparr>host = h, now = t0, GLTFLoader_set = False, cache = Map.empty,
     activePolls = [], closures = Map.empty, promises = Map.empty, next_tid = 0,
     next_handle = 1, next_obj = 0, timers = [], fetches = [], loads = [],
     parent = Map.empty, buuModelData = Map.empty, trace = []\<rparr>"

definition emit :: "effect \<Rightarrow> state \<Rightarrow> state" where
  "emit e s = s\<lparr>trace := trace s @ [e]\<rparr>"

definition threeAvailable :: "state \<Rightarrow> bool" where
  "threeAvailable s = three (host s)"

definition gltfLoaderAvailable :: "state \<Rightarrow> bool" where
  "gltfLoaderAvailable s =
     (GLTFLoader_set s \<or> (threeAvailable s \<and> three_GLTFLoader (host s) \<noteq> Undefined))"

text \<open>\<^verbatim>\<open>_GLTFLoader || (threeAvailable() && window.THREE.GLTFLoader)\<close> is truthy.\<close>

definition loaderClass :: "state \<Rightarrow> bool" where
  "loaderClass s =
     (GLTFLoader_set s \<or> (threeAvailable s \<and> three_GLTFLoader (host s) = Defined))"

section \<open>Timers and the poll registry\<close>

text \<open>
  The delay as the timer of the host reads it. A browser converts the argument of
  \<^verbatim>\<open>setTimeout\<close> to a 32-bit signed value, so a delay above 2147483647 ms wraps around
  (\<^verbatim>\<open>2 ** 32 - 5000\<close> becomes negative, \<^verbatim>\<open>2 ** 32 + 5000\<close> becomes 5000), and a negative
  delay is zero. The handlers that call \<^verbatim>\<open>setTimeout\<close> run when a fetch or a load
  settles, not inside a timer callback, so the minimum delay of nested timers does not
  apply.
\<close>

definition timer_delay :: "int \<Rightarrow> int" where
  "timer_delay delay =
     (let m = delay mod 4294967296
      in max 0 (if m < 2147483648 then m else m - 4294967296))"

definition setTimeout :: "tid \<Rightarrow> int \<Rightarrow> state \<Rightarrow> handle \<times> state" where
  "setTimeout c delay s =
     (next_handle s,
      s\<lparr>timers := timers s @ [(next_handle s, c, now s + timer_delay delay)],
        next_handle := next_handle s + 1\<rparr>)"

definition clearTimeout :: "handle \<Rightarrow> state \<Rightarrow> state" where
  "clearTimeout h s = s\<lparr>timers := filter (\<lambda>t. fst t \<noteq> h) (timers s)\<rparr>"

text \<open>\<^verbatim>\<open>_activePolls[key] = setTimeout(attempt, pollInterval)\<close>.\<close>

definition schedule :: "string \<Rightarrow> tid \<Rightarrow> int \<Rightarrow> state \<Rightarrow> state" where
  "schedule key c delay s =
     (case setTimeout c delay s of
        (h, s') \<Rightarrow> s'\<lparr>activePolls := AList.update key h (activePolls s')\<rparr>)"

text \<open>\<^verbatim>\<open>cancelPoll(modelId)\<close>; the success path of a load runs the same three lines.\<close>

definition cancelPoll :: "string \<Rightarrow> state \<Rightarrow> state" where
  "cancelPoll key s =
     (case map_of (activePolls s) key of
        None \<Rightarrow> s
      | Some h \<Rightarrow> (clearTimeout h s)\<lparr>activePolls := AList.delete key (activePolls s)\<rparr>)"

definition cancelAllPolls :: "state \<Rightarrow> state" where
  "cancelAllPolls s = (fold clearTimeout (map snd (activePolls s)) s)\<lparr>activePolls := []\<rparr>"

definition clearCache :: "state \<Rightarrow> state" where
  "clearCache s = (cancelAllPolls s)\<lparr>cache := Map.empty\<rparr>"

section \<open>The model task\<close>

definition fetchModel :: "tid \<Rightarrow> string \<Rightarrow> state \<Rightarrow> state" where
  "fetchModel c modelId s =
     (emit (FetchModel c modelId (now s)) s)\<lparr>fetches := fetches s @ [c]\<rparr>"

definition fetchWorld :: "tid \<Rightarrow> string \<Rightarrow> state \<Rightarrow> state" where
  "fetchWorld c wid s =
     (emit (FetchWorld c wid (now s)) s)\<lparr>fetches := fetches s @ [c]\<rparr>"

text \<open>The function \<^verbatim>\<open>attempt\<close> of a closure: it issues the fetch.\<close>

definition attempt :: "tid \<Rightarrow> state \<Rightarrow> state" where
  "attempt c s =
     (case closures s c of
        Some (ModelAttempt t) \<Rightarrow> fetchModel c (m_id t) s
      | Some (WorldAttempt w) \<Rightarrow> fetchWorld c (w_id w) s
      | None \<Rightarrow> s)"

text \<open>Both \<^verbatim>\<open>catch\<close> handlers of the model task: report, then retry within the budget.\<close>

definition model_catch :: "tid \<Rightarrow> model_task \<Rightarrow> error \<Rightarrow> state \<Rightarrow> state" where
  "model_catch c t err s =
     (let s1 = emit (OnError c err) s in
      if m_poll t \<and> now s1 - m_startTime t < m_maxPollTime t
      then schedule (m_id t) c (m_pollInterval t) s1
      else s1)"

text \<open>\<^verbatim>\<open>loadGLB(url)\<close>: rejected at once without a loader class, outstanding otherwise.\<close>

definition loadGLB :: "tid \<Rightarrow> model_task \<Rightarrow> jsval \<Rightarrow> jsval \<Rightarrow> state \<Rightarrow> state" where
  "loadGLB c t url modelData s =
     (if \<not> loaderClass s then model_catch c t GLTFLoaderMissing s
      else (emit (LoadGLB c url) s)\<lparr>loads := loads s @ [(c, url, modelData)]\<rparr>)"

text \<open>The \<^verbatim>\<open>then\<close> handler of \<^verbatim>\<open>fetchModel\<close>; an exception in it reaches the \<^verbatim>\<open>catch\<close>.\<close>

definition model_then :: "tid \<Rightarrow> model_task \<Rightarrow> jsval \<Rightarrow> state \<Rightarrow> state" where
  "model_then c t modelData s =
     (let s1 = emit (OnProgress c modelData) s in
      case resolveMeshUrl modelData of
        Inl err \<Rightarrow> model_catch c t err s1
      | Inr meshUrl \<Rightarrow>
          if truthy meshUrl then
            if \<not> gltfLoaderAvailable s1 then emit (OnError c GLTFLoaderNotAvailable) s1
            else loadGLB c t meshUrl modelData s1
          else if m_poll t \<and> now s1 - m_startTime t < m_maxPollTime t
            then schedule (m_id t) c (m_pollInterval t) s1
          else if \<not> m_poll t then s1
          else emit (OnError c (MaxPollTimeReached (''model '' @ m_id t))) s1)"

text \<open>The \<^verbatim>\<open>then\<close> handler of \<^verbatim>\<open>loadGLB\<close>: the swap. Writing \<^verbatim>\<open>.loaded\<close> of a missing cache
  entry throws a TypeError, which reaches the \<^verbatim>\<open>catch\<close> of the load.\<close>

definition load_then :: "tid \<Rightarrow> model_task \<Rightarrow> jsval \<Rightarrow> obj \<Rightarrow> state \<Rightarrow> state" where
  "load_then c t modelData scene s =
     (let s1 = (case m_placeholder t of
                  None \<Rightarrow> s
                | Some p \<Rightarrow>
                    if parent s p = Some (m_group t)
                    then emit (Dispose p) (s\<lparr>parent := (parent s)(p := None)\<rparr>)
                    else s);
          s2 = s1\<lparr>parent := (parent s1)(scene \<mapsto> m_group t),
                  buuModelData := (buuModelData s1)(m_group t \<mapsto> modelData)\<rparr>
      in case cache s2 (''model:'' @ m_id t) of
           None \<Rightarrow> model_catch c t TypeError s2
         | Some e \<Rightarrow>
             emit (OnSwap c scene modelData)
               (cancelPoll (m_id t)
                 (s2\<lparr>cache := (cache s2)(''model:'' @ m_id t \<mapsto> e\<lparr>ce_loaded := True\<rparr>)\<rparr>)))"

definition startModelLoad ::
  "string \<Rightarrow> obj \<Rightarrow> obj option \<Rightarrow> bool \<Rightarrow> int \<Rightarrow> int \<Rightarrow> state \<Rightarrow> state" where
  "startModelLoad modelId g p pl interval maxTime s =
     (let c = next_tid s;
          t = \<lparr>m_id = modelId, m_group = g, m_placeholder = p, m_poll = pl,
               m_pollInterval = interval, m_maxPollTime = maxTime, m_startTime = now s\<rparr>
      in attempt c (s\<lparr>closures := (closures s)(c \<mapsto> ModelAttempt t),
                      next_tid := c + 1\<rparr>))"

text \<open>\<^verbatim>\<open>opts.poll !== undefined ? opts.poll : true\<close> and \<^verbatim>\<open>opts.x || dflt\<close>.\<close>

definition poll_of :: "options \<Rightarrow> bool" where
  "poll_of opts = (case opt_poll opts of None \<Rightarrow> True | Some b \<Rightarrow> b)"

definition or_default :: "int option \<Rightarrow> int \<Rightarrow> int" where
  "or_default x dflt = (case x of None \<Rightarrow> dflt | Some n \<Rightarrow> if n \<noteq> 0 then n else dflt)"

text \<open>\<^verbatim>\<open>loadModel(modelId, options)\<close>; the result is the value the returned promise
  holds: \<open>None\<close> is \<^verbatim>\<open>null\<close>.\<close>

definition loadModel :: "string \<Rightarrow> options \<Rightarrow> state \<Rightarrow> obj option \<times> state" where
  "loadModel modelId opts s =
     (if \<not> threeAvailable s then (None, s)
      else
        let cached = (case cache s (''model:'' @ modelId) of
                        None \<Rightarrow> None
                      | Some e \<Rightarrow> if ce_loaded e then Some e else None)
        in case cached of
             Some e \<Rightarrow> (ce_group e, s)
           | None \<Rightarrow>
               let g = next_obj s;
                   p = (if threeAvailable s then Some (next_obj s + 1) else None);
                   s1 = s\<lparr>next_obj := next_obj s + 2\<rparr>;
                   s2 = (case p of None \<Rightarrow> s1
                         | Some q \<Rightarrow> s1\<lparr>parent := (parent s1)(q \<mapsto> g)\<rparr>);
                   s3 = s2\<lparr>cache := (cache s2)(''model:'' @ modelId \<mapsto>
                          \<lparr>ce_group = Some g, ce_loaded = False,
                           ce_data = None, ce_ready = False\<rparr>)\<rparr>
               in (Some g,
                   startModelLoad modelId g p (poll_of opts)
                     (or_default (opt_pollInterval opts) 5000)
                     (or_default (opt_maxPollTime opts) 300000) s3))"

section \<open>The world task\<close>

text \<open>\<^verbatim>\<open>if (!resolved) { resolved = true; resolve(result) }\<close>, and the same with \<^verbatim>\<open>reject\<close>.\<close>

definition settle :: "tid \<Rightarrow> promise \<Rightarrow> state \<Rightarrow> state" where
  "settle c p s =
     (case promises s c of
        Some Pending \<Rightarrow> s\<lparr>promises := (promises s)(c \<mapsto> p)\<rparr>
      | _ \<Rightarrow> s)"

definition world_catch :: "tid \<Rightarrow> world_task \<Rightarrow> error \<Rightarrow> state \<Rightarrow> state" where
  "world_catch c w err s =
     (let s1 = emit (OnError c err) s in
      if w_poll w \<and> now s1 - w_startTime w < w_maxPollTime w
      then schedule (''world:'' @ w_id w) c (w_pollInterval w) s1
      else settle c (Rejected err) s1)"

definition world_then :: "tid \<Rightarrow> world_task \<Rightarrow> jsval \<Rightarrow> state \<Rightarrow> state" where
  "world_then c w worldData s =
     (let s1 = emit (OnProgress c worldData) s in
      case build_result (w_id w) worldData of
        Inl err \<Rightarrow> world_catch c w err s1
      | Inr result \<Rightarrow>
          if truthy (splatUrl result) \<or> truthy (panoramaUrl result) then
            emit (OnReady c result)
              (settle c (Resolved result)
                (cancelPoll (''world:'' @ w_id w)
                  (s1\<lparr>cache := (cache s1)(''world:'' @ w_id w \<mapsto>
                        \<lparr>ce_group = None, ce_loaded = False,
                         ce_data = Some result, ce_ready = True\<rparr>)\<rparr>)))
          else if w_poll w \<and> now s1 - w_startTime w < w_maxPollTime w then
            schedule (''world:'' @ w_id w) c (w_pollInterval w)
              (settle c (Resolved result) s1)
          else
            let s2 = settle c (Resolved result) s1 in
            if \<not> w_poll w then s2
            else emit (OnError c (MaxPollTimeReached (''world '' @ w_id w))) s2)"

text \<open>What \<^verbatim>\<open>loadWorld\<close> returns: a promise already resolved with the cached data, or
  the promise of a new closure.\<close>

datatype world_return = Cached "world_result option" | Promise tid

definition loadWorld :: "string \<Rightarrow> options \<Rightarrow> state \<Rightarrow> world_return \<times> state" where
  "loadWorld wid opts s =
     (let cached = (case cache s (''world:'' @ wid) of
                      None \<Rightarrow> None
                    | Some e \<Rightarrow> if ce_ready e then Some e else None)
      in case cached of
           Some e \<Rightarrow> (Cached (ce_data e), s)
         | None \<Rightarrow>
             let c = next_tid s;
                 w = \<lparr>w_id = wid, w_poll = poll_of opts,
                      w_pollInterval = or_default (opt_pollInterval opts) 5000,
                      w_maxPollTime = or_default (opt_maxPollTime opts) 300000,
                      w_startTime = now s\<rparr>
             in (Promise c,
                 attempt c (s\<lparr>closures := (closures s)(c \<mapsto> WorldAttempt w),
                              promises := (promises s)(c \<mapsto> Pending),
                              next_tid := c + 1\<rparr>)))"

section \<open>The event loop\<close>

text \<open>
  One turn of the event loop: a call of the public interface, the settlement of an
  outstanding promise by the fetch or load collaborator, a due timer firing, the clock
  advancing, or the application detaching an object from its parent. A turn that is not
  enabled (no such outstanding promise, no such due timer) is \<open>None\<close>.
\<close>

datatype turn =
    LoadModel string options
  | LoadWorld string options
  | CancelPoll string
  | CancelAllPolls
  | ClearCache
  | SetGLTFLoader bool
  | FetchSettles tid "error + jsval"
  | LoadSettles tid "error + obj"
  | TimerFires handle
  | Advance nat
  | Detach obj

definition fetch_settled :: "tid \<Rightarrow> error + jsval \<Rightarrow> state \<Rightarrow> state" where
  "fetch_settled c r s =
     (case closures s c of
        None \<Rightarrow> s
      | Some (ModelAttempt t) \<Rightarrow>
          (case r of Inl err \<Rightarrow> model_catch c t err s | Inr d \<Rightarrow> model_then c t d s)
      | Some (WorldAttempt w) \<Rightarrow>
          (case r of Inl err \<Rightarrow> world_catch c w err s | Inr d \<Rightarrow> world_then c w d s))"

definition load_settled :: "tid \<Rightarrow> jsval \<Rightarrow> error + obj \<Rightarrow> state \<Rightarrow> state" where
  "load_settled c modelData r s =
     (case closures s c of
        Some (ModelAttempt t) \<Rightarrow>
          (case r of Inl err \<Rightarrow> model_catch c t err s
                   | Inr scene \<Rightarrow> load_then c t modelData scene s)
      | _ \<Rightarrow> s)"

fun step :: "turn \<Rightarrow> state \<Rightarrow> state option" where
  "step (LoadModel i opts) s = Some (snd (loadModel i opts s))"
| "step (LoadWorld i opts) s = Some (snd (loadWorld i opts s))"
| "step (CancelPoll k) s = Some (cancelPoll k s)"
| "step CancelAllPolls s = Some (cancelAllPolls s)"
| "step ClearCache s = Some (clearCache s)"
| "step (SetGLTFLoader b) s = Some (s\<lparr>GLTFLoader_set := b\<rparr>)"
| "step (FetchSettles c r) s =
     (if c \<in> set (fetches s)
      then Some (fetch_settled c r (s\<lparr>fetches := remove1 c (fetches s)\<rparr>))
      else None)"
| "step (LoadSettles c r) s =
     (case find (\<lambda>l. fst l = c) (loads s) of
        None \<Rightarrow> None
      | Some l \<Rightarrow>
          Some (load_settled c (snd (snd l)) r (s\<lparr>loads := remove1 l (loads s)\<rparr>)))"
| "step (TimerFires h) s =
     (case find (\<lambda>t. fst t = h) (timers s) of
        None \<Rightarrow> None
      | Some t \<Rightarrow>
          if snd (snd t) \<le> now s
          then Some (attempt (fst (snd t)) (s\<lparr>timers := remove1 t (timers s)\<rparr>))
          else None)"
| "step (Advance d) s = Some (s\<lparr>now := now s + int d\<rparr>)"
| "step (Detach x) s = Some (s\<lparr>parent := (parent s)(x := None)\<rparr>)"

fun run :: "turn list \<Rightarrow> state \<Rightarrow> state option" where
  "run [] s = Some s"
| "run (e # es) s = (case step e s of None \<Rightarrow> None | Some s' \<Rightarrow> run es s')"

text \<open>The activities a closure is waiting for: its outstanding fetches and loads and
  its pending timers.\<close>

definition pending_of :: "state \<Rightarrow> tid \<Rightarrow> nat" where
  "pending_of s c =
     count_list (fetches s) c + count_list (map fst (loads s)) c
       + count_list (map (\<lambda>t. fst (snd t)) (timers s)) c"

text \<open>The attempts in flight for a model id: the outstanding fetches and loads of the
  closures that resolve it.\<close>

definition resolves :: "state \<Rightarrow> string \<Rightarrow> tid \<Rightarrow> bool" where
  "resolves s modelId c =
     (case closures s c of Some (ModelAttempt t) \<Rightarrow> m_id t = modelId | _ \<Rightarrow> False)"

definition in_flight :: "state \<Rightarrow> string \<Rightarrow> nat" where
  "in_flight s modelId =
     length (filter (resolves s modelId) (fetches s))
       + length (filter (resolves s modelId) (map fst (loads s)))"

text \<open>The times at which a closure issued a fetch.\<close>

fun fetch_times :: "tid \<Rightarrow> effect list \<Rightarrow> int list" where
  "fetch_times c [] = []"
| "fetch_times c (FetchModel c' i t # es) =
     (if c' = c then t # fetch_times c es else fetch_times c es)"
| "fetch_times c (FetchWorld c' i t # es) =
     (if c' = c then t # fetch_times c es else fetch_times c es)"
| "fetch_times c (e # es) = fetch_times c es"

text \<open>The swap callbacks a closure has invoked, with their arguments.\<close>

fun swaps :: "tid \<Rightarrow> effect list \<Rightarrow> (obj \<times> jsval) list" where
  "swaps c [] = []"
| "swaps c (OnSwap c' scene d # es) =
     (if c' = c then (scene, d) # swaps c es else swaps c es)"
| "swaps c (e # es) = swaps c es"

section \<open>The settlement of a world promise, as a rule\<close>

text \<open>
  What one attempt of a world task delivers to its handlers: the result built from the
  descriptor, or the error that reaches the \<^verbatim>\<open>catch\<close> (a failed fetch, or an exception
  while the descriptor is read). \<open>promise_after\<close> is the state a pending promise takes on
  that delivery: resolved with the result, still pending when a retry is scheduled,
  rejected otherwise.
\<close>

definition outcome :: "string \<Rightarrow> error + jsval \<Rightarrow> error + world_result" where
  "outcome wid r = (case r of Inl err \<Rightarrow> Inl err | Inr d \<Rightarrow> build_result wid d)"

definition promise_after :: "world_task \<Rightarrow> int \<Rightarrow> error + world_result \<Rightarrow> promise" where
  "promise_after w t r =
     (case r of
        Inr res \<Rightarrow> Resolved res
      | Inl err \<Rightarrow>
          if w_poll w \<and> t - w_startTime w < w_maxPollTime w then Pending else Rejected err)"

section \<open>Scenarios\<close>

text \<open>A browser with THREE.js and its GLTFLoader, the default options, and two
  descriptors: one still generating, one with a textured mesh.\<close>

definition browser :: host where
  "browser = \<lparr>three = True, three_GLTFLoader = Defined\<rparr>"

definition defaults :: options where
  "defaults = \<lparr>opt_poll = None, opt_pollInterval = None, opt_maxPollTime = None\<rparr>"

definition no_mesh :: jsval where
  "no_mesh = JObj [(''status'', JStr ''GENERATING'')]"

definition with_mesh :: jsval where
  "with_mesh = JObj [(''texturedMesh'', JObj [(''url'', JStr ''t.glb'')])]"

text \<open>The same model requested twice before anything settles.\<close>

definition requested_twice :: "turn list" where
  "requested_twice = [LoadModel ''m'' defaults, LoadModel ''m'' defaults]"

text \<open>A model requested, its descriptor fetched and its mesh loaded as object 7.\<close>

definition loaded_once :: "turn list" where
  "loaded_once = [LoadModel ''m'' defaults, FetchSettles 0 (Inr with_mesh), LoadSettles 0 (Inr 7)]"

text \<open>
  Polling with an interval of \<open>I\<close> ms and a ceiling of \<open>M\<close> ms, every fetch answered at
  once by the descriptor \<open>d\<close>: the model is requested and its first fetch answered; each
  round then waits for the interval, lets the timer fire and answers the fetch.
  \<open>waiting t0 I M k\<close> describes the engine after the attempt at \<open>t0 + k * I\<close> has been
  answered and the next one scheduled.
\<close>

definition timed_options :: "nat \<Rightarrow> nat \<Rightarrow> options" where
  "timed_options I M =
     \<lparr>opt_poll = None, opt_pollInterval = Some (int I), opt_maxPollTime = Some (int M)\<rparr>"

definition wait_round :: "nat \<Rightarrow> jsval \<Rightarrow> handle \<Rightarrow> turn list" where
  "wait_round I d h = [Advance I, TimerFires h, FetchSettles 0 (Inr d)]"

fun wait_rounds :: "nat \<Rightarrow> jsval \<Rightarrow> nat \<Rightarrow> turn list" where
  "wait_rounds I d 0 = []"
| "wait_rounds I d (Suc n) = wait_rounds I d n @ wait_round I d (Suc n)"

definition never_ready :: "nat \<Rightarrow> nat \<Rightarrow> jsval \<Rightarrow> nat \<Rightarrow> turn list" where
  "never_ready I M d n =
     [LoadModel ''m'' (timed_options I M), FetchSettles 0 (Inr d)] @ wait_rounds I d n"

definition waiting :: "int \<Rightarrow> nat \<Rightarrow> nat \<Rightarrow> nat \<Rightarrow> state \<Rightarrow> bool" where
  "waiting t0 I M k s =
     (closures s 0 = Some (ModelAttempt
        \<lparr>m_id = ''m'', m_group = 0, m_placeholder = Some 1, m_poll = True,
         m_pollInterval = int I, m_maxPollTime = int M, m_startTime = t0\<rparr>)
      \<and> fetches s = [] \<and> timers s = [(Suc k, 0, t0 + int (Suc k * I))]
      \<and> next_handle s = Suc (Suc k) \<and> now s = t0 + int (k * I)
      \<and> fetch_times 0 (trace s) = map (\<lambda>j. t0 + int (j * I)) [0..<Suc k])"

text \<open>\<^verbatim>\<open>cancelPoll\<close> called while the first fetch is outstanding; the fetch then delivers
  a descriptor without a mesh.\<close>

definition cancelled_in_flight :: "turn list" where
  "cancelled_in_flight =
     [LoadModel ''m'' defaults, CancelPoll ''m'', FetchSettles 0 (Inr no_mesh)]"

text \<open>A world whose fetch fails twice, with polling enabled, a ceiling of 4000 ms and
  an interval of 5000 ms.\<close>

definition short_ceiling :: options where
  "short_ceiling = \<lparr>opt_poll = None, opt_pollInterval = Some 5000, opt_maxPollTime = Some 4000\<rparr>"

definition world_fails_twice :: "turn list" where
  "world_fails_twice =
     [LoadWorld ''w'' short_ceiling, FetchSettles 0 (Inl (External ''HTTP 503'')),
      Advance 5000, TimerFires 1, FetchSettles 0 (Inl (External ''HTTP 503''))]"

text \<open>A mesh that loads after the application has detached the placeholder (object 1),
  and one that loads after the application has cleared the cache.\<close>

definition removed_then_loaded :: "turn list" where
  "removed_then_loaded =
     [LoadModel ''m'' defaults, FetchSettles 0 (Inr with_mesh), Detach 1, LoadSettles 0 (Inr 7)]"

definition cleared_then_loaded :: "turn list" where
  "cleared_then_loaded =
     [LoadModel ''m'' defaults, FetchSettles 0 (Inr with_mesh), ClearCache, LoadSettles 0 (Inr 7)]"

section \<open>Properties of the URL resolvers\<close>

lemma member_lookup:
  "v \<noteq> JUndefined \<Longrightarrow> v \<noteq> JNull \<Longrightarrow> member v k = Inr (lookup (fields_of v) k)"
  by (cases v) (simp_all add: lookup_def fields_of_def)

lemma guard_present:
  assumes "member d k = Inr sub"
  shows "js_if (js_and (path d [k]) (path d [k, ''url''])) (path d [k, ''url'']) e =
         (case present_url sub of Some u \<Rightarrow> Inr u | None \<Rightarrow> e)"
  using assms by (cases sub) (simp_all add: js_if_def js_and_def lookup_def)

lemma slot_present:
  assumes "member d k = Inr sub"
  shows "js_or (js_and (path d [k]) (path d [k, ''url''])) (Inr JNull) =
         Inr (first_present [sub])"
  using assms by (cases sub) (simp_all add: js_or_def js_and_def lookup_def)

lemma resolveMeshUrl_eq:
  assumes "v \<noteq> JUndefined" "v \<noteq> JNull"
  shows "resolveMeshUrl v = Inr (first_present (map (lookup (fields_of v))
           [''texturedMesh'', ''optimizedMesh'', ''mesh'']))"
  unfolding resolveMeshUrl_def guard_present[OF member_lookup[OF assms]]
  by (simp split: option.splits)

lemma resolveSplatUrl_eq:
  assumes "v \<noteq> JUndefined" "v \<noteq> JNull"
  shows "resolveSplatUrl v =
           Inr (first_present (map (lookup (fields_of (lookup (fields_of v) ''splatFiles'')))
             [''highRes'', ''mediumRes'', ''lowRes'']))"
proof -
  let ?sf = "lookup (fields_of v) ''splatFiles''"
  have m: "member v ''splatFiles'' = Inr ?sf" by (rule member_lookup[OF assms])
  show ?thesis
  proof (cases "truthy ?sf")
    case False
    then have "fields_of ?sf = []" by (cases ?sf) (simp_all add: fields_of_def)
    with False m show ?thesis by (simp add: resolveSplatUrl_def js_if_def lookup_def)
  next
    case True
    then have ne: "?sf \<noteq> JUndefined" "?sf \<noteq> JNull" by auto
    have p: "\<And>ks. path v (''splatFiles'' # ks) = path ?sf ks" using m by simp
    have g: "\<And>k e. js_if (js_and (path ?sf [k]) (path ?sf [k, ''url'']))
                (path ?sf [k, ''url'']) e =
              (case present_url (lookup (fields_of ?sf) k) of Some u \<Rightarrow> Inr u | None \<Rightarrow> e)"
      by (rule guard_present[OF member_lookup[OF ne]])
    show ?thesis unfolding resolveSplatUrl_def p g
      using True by (simp add: js_if_def split: option.splits)
  qed
qed

lemma resolveAllSplatUrls_eq:
  assumes "v \<noteq> JUndefined" "v \<noteq> JNull"
  shows "resolveAllSplatUrls v =
           Inr \<lparr>lowRes = first_present [lookup (fields_of (lookup (fields_of v) ''splatFiles'')) ''lowRes''],
                mediumRes = first_present [lookup (fields_of (lookup (fields_of v) ''splatFiles'')) ''mediumRes''],
                highRes = first_present [lookup (fields_of (lookup (fields_of v) ''splatFiles'')) ''highRes'']\<rparr>"
proof -
  let ?sf = "lookup (fields_of v) ''splatFiles''"
  let ?files = "if truthy ?sf then ?sf else JObj []"
  have m: "member v ''splatFiles'' = Inr ?sf" by (rule member_lookup[OF assms])
  have f: "js_or (path v [''splatFiles'']) (Inr (JObj [])) = Inr ?files"
    using m by (simp add: js_or_def)
  have ne: "?files \<noteq> JUndefined" "?files \<noteq> JNull" by auto
  have fs: "fields_of ?files = fields_of ?sf"
    by (cases ?sf) (simp_all add: fields_of_def)
  have g: "\<And>k. js_or (js_and (path ?files [k]) (path ?files [k, ''url''])) (Inr JNull) =
             Inr (first_present [lookup (fields_of ?sf) k])"
    using slot_present[OF member_lookup[OF ne]] unfolding fs .
  show ?thesis unfolding resolveAllSplatUrls_def f
    by (simp only: bind_def sum.case g)
qed

lemma first_present_shape: "first_present subs = JNull \<or> truthy (first_present subs)"
  by (induction subs) (auto split: option.splits elim!: present_url.elims split: if_splits)

lemma resolveAllFormats_eq:
  assumes "v \<noteq> JUndefined" "v \<noteq> JNull"
  shows "\<exists>g ob fb. resolveAllFormats v = Inr \<lparr>glb = g, obj = ob, fbx = fb\<rparr>
           \<and> (g = JNull \<or> truthy g) \<and> (ob = JNull \<or> truthy ob) \<and> (fb = JNull \<or> truthy fb)"
proof -
  have sub: "\<exists>u. js_if (path v [k]) (bind (path v [k]) resolveMeshUrl) (Inr JNull) = Inr u
               \<and> (u = JNull \<or> truthy u)" for k
  proof (cases "truthy (lookup (fields_of v) k)")
    case True
    then have "lookup (fields_of v) k \<noteq> JUndefined" "lookup (fields_of v) k \<noteq> JNull" by auto
    from resolveMeshUrl_eq[OF this] obtain subs where
      "resolveMeshUrl (lookup (fields_of v) k) = Inr (first_present subs)" by blast
    with True show ?thesis
      using member_lookup[OF assms, of k] first_present_shape[of subs]
      by (simp add: js_if_def bind_def)
  next
    case False
    then show ?thesis using member_lookup[OF assms, of k] by (simp add: js_if_def)
  qed
  from sub[of "''obj''"] obtain ob where
    ob: "js_if (path v [''obj'']) (bind (path v [''obj'']) resolveMeshUrl) (Inr JNull) = Inr ob"
        "ob = JNull \<or> truthy ob" by blast
  from sub[of "''fbx''"] obtain fb where
    fb: "js_if (path v [''fbx'']) (bind (path v [''fbx'']) resolveMeshUrl) (Inr JNull) = Inr fb"
        "fb = JNull \<or> truthy fb" by blast
  from resolveMeshUrl_eq[OF assms] obtain subs where
    g: "resolveMeshUrl v = Inr (first_present subs)" by blast
  show ?thesis
    unfolding resolveAllFormats_def g ob(1) fb(1)
    using ob(2) fb(2) first_present_shape[of subs] by (simp add: bind_def)
qed

lemma lookup_perm:
  assumes "distinct (map fst fs)" "distinct (map fst gs)" "set gs = set fs"
  shows "lookup gs = lookup fs"
proof -
  from assms have "map_of gs = map_of fs" by (simp add: map_of_inject_set)
  then show ?thesis by (simp add: lookup_def fun_eq_iff)
qed

lemma first_present_cong:
  "map present_url xs = map present_url ys \<Longrightarrow> first_present xs = first_present ys"
proof (induction xs arbitrary: ys)
  case Nil
  then show ?case by simp
next
  case (Cons x xs)
  then obtain y ys' where "ys = y # ys'" by (cases ys) auto
  with Cons show ?case by (auto split: option.splits)
qed

lemma lookup_update: "lookup (AList.update k v fs) k' = (if k' = k then v else lookup fs k')"
  by (simp add: lookup_def update_conv')

lemma lookup_delete: "lookup (AList.delete k fs) k' = (if k' = k then JUndefined else lookup fs k')"
  by (simp add: lookup_def delete_conv')

text \<open>
  Claim C4. For every model descriptor, \<^verbatim>\<open>resolveMeshUrl\<close> returns the first present URL
  in the order texturedMesh, optimizedMesh, mesh, and \<^verbatim>\<open>null\<close> when none is present; a
  missing sub-record and a sub-record without a URL are skipped alike. The result does
  not depend on the order in which the properties were inserted, and the descriptor
  \<^verbatim>\<open>{optimizedMesh:{url:"a.glb"}, mesh:{url:"b.glb"}}\<close> resolves to \<^verbatim>\<open>"a.glb"\<close>.
\<close>

theorem resolveMeshUrl_priority:
  "resolveMeshUrl (JObj fs) =
     Inr (first_present [lookup fs ''texturedMesh'', lookup fs ''optimizedMesh'', lookup fs ''mesh''])
   \<and> (distinct (map fst fs) \<and> distinct (map fst gs) \<and> set gs = set fs
        \<longrightarrow> resolveMeshUrl (JObj gs) = resolveMeshUrl (JObj fs))
   \<and> resolveMeshUrl (JObj [(''optimizedMesh'', JObj [(''url'', JStr ''a.glb'')]),
                            (''mesh'', JObj [(''url'', JStr ''b.glb'')])]) = Inr (JStr ''a.glb'')"
proof (intro conjI impI)
  show g: "resolveMeshUrl (JObj fs) =
     Inr (first_present [lookup fs ''texturedMesh'', lookup fs ''optimizedMesh'', lookup fs ''mesh''])"
    for fs using resolveMeshUrl_eq[of "JObj fs"] by (simp add: fields_of_def)
  show "resolveMeshUrl (JObj gs) = resolveMeshUrl (JObj fs)"
    if "distinct (map fst fs) \<and> distinct (map fst gs) \<and> set gs = set fs"
    using that lookup_perm[of fs gs] by (simp add: g)
  show "resolveMeshUrl (JObj [(''optimizedMesh'', JObj [(''url'', JStr ''a.glb'')]),
                            (''mesh'', JObj [(''url'', JStr ''b.glb'')])]) = Inr (JStr ''a.glb'')"
    by (simp add: g lookup_def)
qed

theorem resolveMeshUrl_priority_witness:
  "resolveMeshUrl (JObj [(''mesh'', JObj [(''url'', JStr ''b.glb'')]),
                         (''texturedMesh'', JObj [(''url'', JStr ''t.glb'')])]) = Inr (JStr ''t.glb'')
   \<and> resolveMeshUrl (JObj [(''texturedMesh'', JObj [(''url'', JStr ''t.glb'')]),
                           (''mesh'', JObj [(''url'', JStr ''b.glb'')])]) = Inr (JStr ''t.glb'')"
  using resolveMeshUrl_priority
    [of "[(''mesh'', JObj [(''url'', JStr ''b.glb'')]),
          (''texturedMesh'', JObj [(''url'', JStr ''t.glb'')])]"
        "[(''texturedMesh'', JObj [(''url'', JStr ''t.glb'')]),
          (''mesh'', JObj [(''url'', JStr ''b.glb'')])]"]
  by (simp add: lookup_def insert_commute)

text \<open>
  Claim C5. For every world descriptor, \<^verbatim>\<open>resolveSplatUrl\<close> returns the first present
  URL in the order highRes, mediumRes, lowRes under \<^verbatim>\<open>splatFiles\<close> (\<^verbatim>\<open>null\<close> when none is
  present), and \<^verbatim>\<open>resolveAllSplatUrls\<close> returns the three tiers, each slot \<^verbatim>\<open>null\<close> on its
  own when absent. The descriptor \<^verbatim>\<open>{splatFiles:{lowRes:{url:"x"},highRes:{url:"z"}}}\<close>
  resolves to \<^verbatim>\<open>"z"\<close> and to the tiers \<^verbatim>\<open>{lowRes:"x", mediumRes:null, highRes:"z"}\<close>.
\<close>

theorem resolveSplatUrl_priority:
  "resolveSplatUrl (JObj fs) =
     Inr (first_present [lookup (fields_of (lookup fs ''splatFiles'')) ''highRes'',
                         lookup (fields_of (lookup fs ''splatFiles'')) ''mediumRes'',
                         lookup (fields_of (lookup fs ''splatFiles'')) ''lowRes''])
   \<and> resolveAllSplatUrls (JObj fs) =
     Inr \<lparr>lowRes = first_present [lookup (fields_of (lookup fs ''splatFiles'')) ''lowRes''],
          mediumRes = first_present [lookup (fields_of (lookup fs ''splatFiles'')) ''mediumRes''],
          highRes = first_present [lookup (fields_of (lookup fs ''splatFiles'')) ''highRes'']\<rparr>
   \<and> resolveSplatUrl (JObj [(''splatFiles'', JObj [(''lowRes'', JObj [(''url'', JStr ''x'')]),
                                                   (''highRes'', JObj [(''url'', JStr ''z'')])])])
       = Inr (JStr ''z'')
   \<and> resolveAllSplatUrls (JObj [(''splatFiles'', JObj [(''lowRes'', JObj [(''url'', JStr ''x'')]),
                                                   (''highRes'', JObj [(''url'', JStr ''z'')])])])
       = Inr \<lparr>lowRes = JStr ''x'', mediumRes = JNull, highRes = JStr ''z''\<rparr>"
proof (intro conjI)
  show a: "resolveSplatUrl (JObj fs) =
     Inr (first_present [lookup (fields_of (lookup fs ''splatFiles'')) ''highRes'',
                         lookup (fields_of (lookup fs ''splatFiles'')) ''mediumRes'',
                         lookup (fields_of (lookup fs ''splatFiles'')) ''lowRes''])" for fs
    using resolveSplatUrl_eq[of "JObj fs"] by (simp add: fields_of_def)
  show b: "resolveAllSplatUrls (JObj fs) =
     Inr \<lparr>lowRes = first_present [lookup (fields_of (lookup fs ''splatFiles'')) ''lowRes''],
          mediumRes = first_present [lookup (fields_of (lookup fs ''splatFiles'')) ''mediumRes''],
          highRes = first_present [lookup (fields_of (lookup fs ''splatFiles'')) ''highRes'']\<rparr>" for fs
    using resolveAllSplatUrls_eq[of "JObj fs"] by (simp add: fields_of_def)
  show "resolveSplatUrl (JObj [(''splatFiles'', JObj [(''lowRes'', JObj [(''url'', JStr ''x'')]),
                                                   (''highRes'', JObj [(''url'', JStr ''z'')])])])
       = Inr (JStr ''z'')"
    by (simp add: a lookup_def fields_of_def)
  show "resolveAllSplatUrls (JObj [(''splatFiles'', JObj [(''lowRes'', JObj [(''url'', JStr ''x'')]),
                                                   (''highRes'', JObj [(''url'', JStr ''z'')])])])
       = Inr \<lparr>lowRes = JStr ''x'', mediumRes = JNull, highRes = JStr ''z''\<rparr>"
    by (simp add: b lookup_def fields_of_def)
qed

text \<open>
  Claim C9. The four resolvers are total: on a descriptor object with any set of
  properties, holding any values, none of them throws, and each result (each slot of a
  structured result) is \<^verbatim>\<open>null\<close> or a truthy value read from a \<^verbatim>\<open>url\<close> property.
\<close>

theorem resolvers_total:
  "(\<exists>u. resolveMeshUrl (JObj fs) = Inr u \<and> (u = JNull \<or> truthy u))
   \<and> (\<exists>g ob fb. resolveAllFormats (JObj fs) = Inr \<lparr>glb = g, obj = ob, fbx = fb\<rparr>
         \<and> (g = JNull \<or> truthy g) \<and> (ob = JNull \<or> truthy ob) \<and> (fb = JNull \<or> truthy fb))
   \<and> (\<exists>u. resolveSplatUrl (JObj fs) = Inr u \<and> (u = JNull \<or> truthy u))
   \<and> (\<exists>lo me hi. resolveAllSplatUrls (JObj fs) = Inr \<lparr>lowRes = lo, mediumRes = me, highRes = hi\<rparr>
         \<and> (lo = JNull \<or> truthy lo) \<and> (me = JNull \<or> truthy me) \<and> (hi = JNull \<or> truthy hi))"
proof (intro conjI)
  have ne: "JObj fs \<noteq> JUndefined" "JObj fs \<noteq> JNull" by simp_all
  show "\<exists>u. resolveMeshUrl (JObj fs) = Inr u \<and> (u = JNull \<or> truthy u)"
    unfolding resolveMeshUrl_eq[OF ne] using first_present_shape by blast
  show "\<exists>g ob fb. resolveAllFormats (JObj fs) = Inr \<lparr>glb = g, obj = ob, fbx = fb\<rparr>
         \<and> (g = JNull \<or> truthy g) \<and> (ob = JNull \<or> truthy ob) \<and> (fb = JNull \<or> truthy fb)"
    by (rule resolveAllFormats_eq[OF ne])
  show "\<exists>u. resolveSplatUrl (JObj fs) = Inr u \<and> (u = JNull \<or> truthy u)"
    unfolding resolveSplatUrl_eq[OF ne] using first_present_shape by blast
  show "\<exists>lo me hi. resolveAllSplatUrls (JObj fs) = Inr \<lparr>lowRes = lo, mediumRes = me, highRes = hi\<rparr>
         \<and> (lo = JNull \<or> truthy lo) \<and> (me = JNull \<or> truthy me) \<and> (hi = JNull \<or> truthy hi)"
    unfolding resolveAllSplatUrls_eq[OF ne] using first_present_shape by blast
qed

lemma first_present_skip:
  "present_url (lookup fs k) = None \<Longrightarrow>
   first_present (map (lookup fs) ks) = first_present (map (lookup fs) (removeAll k ks))"
  by (induction ks) (auto split: option.splits)

lemma first_present_deleted:
  assumes "present_url (lookup fs k) = None"
  shows "first_present (map (lookup (AList.delete k fs)) ks) = first_present (map (lookup fs) ks)"
proof (rule first_present_cong)
  have "present_url (lookup (AList.delete k fs) k') = present_url (lookup fs k')" for k'
    using assms by (simp add: lookup_delete)
  then show "map present_url (map (lookup (AList.delete k fs)) ks)
           = map present_url (map (lookup fs) ks)" by simp
qed

lemma falsy_mesh:
  assumes "lookup fs k = JObj ufs" "\<not> truthy (lookup ufs ''url'')"
  shows "resolveMeshUrl (JObj fs) =
           Inr (first_present (map (lookup fs)
                  (removeAll k [''texturedMesh'', ''optimizedMesh'', ''mesh''])))"
    and "resolveMeshUrl (JObj fs) = resolveMeshUrl (JObj (AList.delete k fs))"
proof -
  have ne: "JObj xs \<noteq> JUndefined" "JObj xs \<noteq> JNull" for xs by simp_all
  have fo: "fields_of (JObj xs) = xs" for xs by (simp add: fields_of_def)
  from assms have p: "present_url (lookup fs k) = None" by simp
  show "resolveMeshUrl (JObj fs) =
           Inr (first_present (map (lookup fs)
                  (removeAll k [''texturedMesh'', ''optimizedMesh'', ''mesh''])))"
    unfolding resolveMeshUrl_eq[OF ne] fo
    by (simp only: first_present_skip[OF p, symmetric])
  show "resolveMeshUrl (JObj fs) = resolveMeshUrl (JObj (AList.delete k fs))"
    unfolding resolveMeshUrl_eq[OF ne] fo
    by (simp only: first_present_deleted[OF p])
qed

lemma falsy_splat:
  assumes "lookup ws ''splatFiles'' = JObj sfs" "lookup sfs tier = JObj tfs"
    and "\<not> truthy (lookup tfs ''url'')"
  shows "resolveSplatUrl (JObj ws) =
           Inr (first_present (map (lookup sfs)
                  (removeAll tier [''highRes'', ''mediumRes'', ''lowRes''])))"
    and "resolveSplatUrl (JObj ws) =
           resolveSplatUrl (JObj (AList.update ''splatFiles'' (JObj (AList.delete tier sfs)) ws))"
    and "resolveAllSplatUrls (JObj ws) =
           Inr \<lparr>lowRes = (if tier = ''lowRes'' then JNull
                          else first_present [lookup sfs ''lowRes'']),
                mediumRes = (if tier = ''mediumRes'' then JNull
                             else first_present [lookup sfs ''mediumRes'']),
                highRes = (if tier = ''highRes'' then JNull
                           else first_present [lookup sfs ''highRes''])\<rparr>"
    and "resolveAllSplatUrls (JObj ws) =
           resolveAllSplatUrls
             (JObj (AList.update ''splatFiles'' (JObj (AList.delete tier sfs)) ws))"
proof -
  have ne: "JObj xs \<noteq> JUndefined" "JObj xs \<noteq> JNull" for xs by simp_all
  have fo: "fields_of (JObj xs) = xs" for xs by (simp add: fields_of_def)
  from assms(1) have sf: "fields_of (lookup ws ''splatFiles'') = sfs" by (simp add: fo)
  have sf': "fields_of (lookup (AList.update ''splatFiles'' (JObj xs) ws) ''splatFiles'') = xs"
    for xs by (simp add: lookup_update fo)
  from assms(2,3) have p: "present_url (lookup sfs tier) = None" by simp
  have one: "first_present [lookup sfs r] =
               (if tier = r then JNull else first_present [lookup sfs r])" for r
    using p by auto
  have del: "first_present [lookup (AList.delete tier sfs) r] = first_present [lookup sfs r]"
    for r using first_present_deleted[OF p, of "[r]"] by simp
  show "resolveSplatUrl (JObj ws) =
           Inr (first_present (map (lookup sfs)
                  (removeAll tier [''highRes'', ''mediumRes'', ''lowRes''])))"
    unfolding resolveSplatUrl_eq[OF ne] fo sf
    by (simp only: first_present_skip[OF p, symmetric])
  show "resolveSplatUrl (JObj ws) =
           resolveSplatUrl (JObj (AList.update ''splatFiles'' (JObj (AList.delete tier sfs)) ws))"
    unfolding resolveSplatUrl_eq[OF ne] fo sf sf'
    by (simp only: first_present_deleted[OF p])
  show "resolveAllSplatUrls (JObj ws) =
           Inr \<lparr>lowRes = (if tier = ''lowRes'' then JNull
                          else first_present [lookup sfs ''lowRes'']),
                mediumRes = (if tier = ''mediumRes'' then JNull
                             else first_present [lookup sfs ''mediumRes'']),
                highRes = (if tier = ''highRes'' then JNull
                           else first_present [lookup sfs ''highRes''])\<rparr>"
    unfolding resolveAllSplatUrls_eq[OF ne] fo sf
    using one[of "''lowRes''"] one[of "''mediumRes''"] one[of "''highRes''"] by simp
  show "resolveAllSplatUrls (JObj ws) =
           resolveAllSplatUrls
             (JObj (AList.update ''splatFiles'' (JObj (AList.delete tier sfs)) ws))"
    unfolding resolveAllSplatUrls_eq[OF ne] fo sf sf' del ..
qed

text \<open>
  Claim C10. A sub-record that is present but whose \<^verbatim>\<open>url\<close> is the empty string or any
  other falsy value is treated exactly as an absent one. \<^verbatim>\<open>resolveMeshUrl\<close> and
  \<^verbatim>\<open>resolveSplatUrl\<close> skip it: they return the first present URL among the other ranks,
  which is also what they return on the descriptor without that sub-record. In the
  result of \<^verbatim>\<open>resolveAllSplatUrls\<close> the slot of that tier is \<^verbatim>\<open>null\<close> and the other slots
  are what they are without it. So \<^verbatim>\<open>{splatFiles:{highRes:{url:""},lowRes:{url:"x"}}}\<close>
  resolves to \<^verbatim>\<open>"x"\<close> with the tiers \<^verbatim>\<open>{lowRes:"x", mediumRes:null, highRes:null}\<close>, and
  \<^verbatim>\<open>{texturedMesh:{url:""}, mesh:{url:"b.glb"}}\<close> resolves to \<^verbatim>\<open>"b.glb"\<close>.
\<close>

theorem falsy_url_as_absent:
  "(lookup fs k = JObj ufs \<and> \<not> truthy (lookup ufs ''url'') \<longrightarrow>
      resolveMeshUrl (JObj fs) =
        Inr (first_present (map (lookup fs)
               (removeAll k [''texturedMesh'', ''optimizedMesh'', ''mesh''])))
    \<and> resolveMeshUrl (JObj fs) = resolveMeshUrl (JObj (AList.delete k fs)))
   \<and> (lookup ws ''splatFiles'' = JObj sfs \<and> lookup sfs tier = JObj tfs \<and>
      \<not> truthy (lookup tfs ''url'') \<longrightarrow>
      resolveSplatUrl (JObj ws) =
        Inr (first_present (map (lookup sfs)
               (removeAll tier [''highRes'', ''mediumRes'', ''lowRes''])))
    \<and> resolveSplatUrl (JObj ws) =
        resolveSplatUrl (JObj (AList.update ''splatFiles'' (JObj (AList.delete tier sfs)) ws))
    \<and> resolveAllSplatUrls (JObj ws) =
        Inr \<lparr>lowRes = (if tier = ''lowRes'' then JNull
                       else first_present [lookup sfs ''lowRes'']),
             mediumRes = (if tier = ''mediumRes'' then JNull
                          else first_present [lookup sfs ''mediumRes'']),
             highRes = (if tier = ''highRes'' then JNull
                        else first_present [lookup sfs ''highRes''])\<rparr>
    \<and> resolveAllSplatUrls (JObj ws) =
        resolveAllSplatUrls
          (JObj (AList.update ''splatFiles'' (JObj (AList.delete tier sfs)) ws)))
   \<and> resolveSplatUrl (JObj [(''splatFiles'',
        JObj [(''highRes'', JObj [(''url'', JStr [])]),
              (''lowRes'', JObj [(''url'', JStr ''x'')])])]) = Inr (JStr ''x'')
   \<and> resolveAllSplatUrls (JObj [(''splatFiles'',
        JObj [(''highRes'', JObj [(''url'', JStr [])]),
              (''lowRes'', JObj [(''url'', JStr ''x'')])])])
       = Inr \<lparr>lowRes = JStr ''x'', mediumRes = JNull, highRes = JNull\<rparr>
   \<and> resolveMeshUrl (JObj [(''texturedMesh'', JObj [(''url'', JStr [])]),
                           (''mesh'', JObj [(''url'', JStr ''b.glb'')])]) = Inr (JStr ''b.glb'')"
proof (intro conjI impI)
  have ne: "JObj xs \<noteq> JUndefined" "JObj xs \<noteq> JNull" for xs by simp_all
  show "resolveSplatUrl (JObj [(''splatFiles'',
        JObj [(''highRes'', JObj [(''url'', JStr [])]),
              (''lowRes'', JObj [(''url'', JStr ''x'')])])]) = Inr (JStr ''x'')"
    unfolding resolveSplatUrl_eq[OF ne] by (simp add: lookup_def fields_of_def)
  show "resolveAllSplatUrls (JObj [(''splatFiles'',
        JObj [(''highRes'', JObj [(''url'', JStr [])]),
              (''lowRes'', JObj [(''url'', JStr ''x'')])])])
       = Inr \<lparr>lowRes = JStr ''x'', mediumRes = JNull, highRes = JNull\<rparr>"
    unfolding resolveAllSplatUrls_eq[OF ne] by (simp add: lookup_def fields_of_def)
  show "resolveMeshUrl (JObj [(''texturedMesh'', JObj [(''url'', JStr [])]),
                           (''mesh'', JObj [(''url'', JStr ''b.glb'')])]) = Inr (JStr ''b.glb'')"
    unfolding resolveMeshUrl_eq[OF ne] by (simp add: lookup_def fields_of_def)
qed (use falsy_mesh[of fs k ufs] falsy_splat[of ws sfs tier tfs] in blast)+

theorem falsy_url_as_absent_witness:
  "resolveMeshUrl (JObj [(''texturedMesh'', JObj [(''url'', JNum 0)]),
                         (''optimizedMesh'', JObj [(''url'', JStr ''o.glb'')]),
                         (''mesh'', JObj [(''url'', JStr ''b.glb'')])]) = Inr (JStr ''o.glb'')
   \<and> resolveMeshUrl (JObj [(''optimizedMesh'', JObj [(''url'', JStr ''o.glb'')]),
                           (''mesh'', JObj [(''url'', JStr ''b.glb'')])]) = Inr (JStr ''o.glb'')
   \<and> resolveSplatUrl (JObj [(''splatFiles'',
        JObj [(''highRes'', JObj [(''url'', JStr [])]),
              (''mediumRes'', JObj [(''url'', JStr ''y'')]),
              (''lowRes'', JObj [(''url'', JStr ''x'')])])]) = Inr (JStr ''y'')
   \<and> resolveSplatUrl (JObj [(''splatFiles'',
        JObj [(''mediumRes'', JObj [(''url'', JStr ''y'')]),
              (''lowRes'', JObj [(''url'', JStr ''x'')])])]) = Inr (JStr ''y'')
   \<and> resolveAllSplatUrls (JObj [(''splatFiles'',
        JObj [(''highRes'', JObj [(''url'', JStr [])]),
              (''mediumRes'', JObj [(''url'', JStr ''y'')]),
              (''lowRes'', JObj [(''url'', JStr ''x'')])])])
       = Inr \<lparr>lowRes = JStr ''x'', mediumRes = JStr ''y'', highRes = JNull\<rparr>"
  using falsy_url_as_absent
    [of "[(''texturedMesh'', JObj [(''url'', JNum 0)]),
          (''optimizedMesh'', JObj [(''url'', JStr ''o.glb'')]),
          (''mesh'', JObj [(''url'', JStr ''b.glb'')])]"
        "''texturedMesh''" "[(''url'', JNum 0)]"
        "[(''splatFiles'',
           JObj [(''highRes'', JObj [(''url'', JStr [])]),
                 (''mediumRes'', JObj [(''url'', JStr ''y'')]),
                 (''lowRes'', JObj [(''url'', JStr ''x'')])])]"
        "[(''highRes'', JObj [(''url'', JStr [])]),
          (''mediumRes'', JObj [(''url'', JStr ''y'')]),
          (''lowRes'', JObj [(''url'', JStr ''x'')])]"
        "''highRes''" "[(''url'', JStr [])]"]
  by (auto simp add: lookup_def)

section \<open>Evaluating a scenario\<close>

lemma timer_delay_in_range:
  "0 \<le> d \<Longrightarrow> d \<le> 2147483647 \<Longrightarrow> timer_delay d = d"
  by (simp add: timer_delay_def)

lemma wait_rounds_numeral:
  "wait_rounds I d 1 = wait_round I d 1"
  "wait_rounds I d 2 = wait_round I d 1 @ wait_round I d 2"
  "wait_rounds I d 3 = wait_round I d 1 @ wait_round I d 2 @ wait_round I d 3"
  by (simp_all add: numeral_2_eq_2 numeral_3_eq_3)

lemma fetch_times_append: "fetch_times c (xs @ ys) = fetch_times c xs @ fetch_times c ys"
  by (induction c xs rule: fetch_times.induct) auto

lemmas exec = init_def loadModel_def loadWorld_def threeAvailable_def startModelLoad_def
  poll_of_def or_default_def gltfLoaderAvailable_def loaderClass_def
  model_catch_def loadGLB_def model_then_def load_then_def
  world_catch_def world_then_def fetch_settled_def load_settled_def attempt_def
  cancelPoll_def cancelAllPolls_def clearCache_def
  emit_def schedule_def setTimeout_def clearTimeout_def settle_def
  fetchModel_def fetchWorld_def Let_def timer_delay_def
  resolveMeshUrl_def resolveSplatUrl_def resolveAllSplatUrls_def build_result_def
  js_if_def js_and_def js_or_def bind_def outcome_def promise_after_def
  browser_def defaults_def with_mesh_def no_mesh_def
  requested_twice_def loaded_once_def timed_options_def wait_round_def never_ready_def
  wait_rounds_numeral cancelled_in_flight_def short_ceiling_def world_fails_twice_def
  removed_then_loaded_def cleared_then_loaded_def

section \<open>Pending activities of a closure\<close>

lemmas prims = emit_def schedule_def setTimeout_def clearTimeout_def settle_def
  fetchModel_def fetchWorld_def

lemma count_filter_le: "count_list (map f (filter P xs)) c \<le> count_list (map f xs) c"
  by (induction xs) auto

lemma count_remove1:
  "x \<in> set xs \<Longrightarrow> count_list (map f (remove1 x xs)) c + (if f x = c then 1 else 0) = count_list (map f xs) c"
  by (induction xs) auto

lemma pending_emit [simp]: "pending_of (emit e s) c = pending_of s c"
  by (simp add: pending_of_def emit_def)

lemma pending_settle [simp]: "pending_of (settle c' p s) c = pending_of s c"
  by (simp add: pending_of_def settle_def split: option.splits promise.splits)

lemma pending_schedule [simp]:
  "pending_of (schedule k c' d s) c = pending_of s c + (if c' = c then 1 else 0)"
  by (simp add: pending_of_def schedule_def setTimeout_def)

lemma pending_clearTimeout: "pending_of (clearTimeout h s) c \<le> pending_of s c"
  by (simp add: pending_of_def clearTimeout_def count_filter_le)

lemma pending_activePolls [simp]: "pending_of (s\<lparr>activePolls := a\<rparr>) c = pending_of s c"
  by (simp add: pending_of_def)

lemma pending_cache [simp]: "pending_of (s\<lparr>cache := a\<rparr>) c = pending_of s c"
  by (simp add: pending_of_def)

lemma pending_cancelPoll: "pending_of (cancelPoll k s) c \<le> pending_of s c"
  by (simp add: cancelPoll_def pending_clearTimeout split: option.splits)

lemma pending_fold_clear: "pending_of (fold clearTimeout hs s) c \<le> pending_of s c"
proof (induction hs arbitrary: s)
  case Nil
  show ?case by simp
next
  case (Cons h hs)
  have "pending_of (fold clearTimeout hs (clearTimeout h s)) c \<le> pending_of (clearTimeout h s) c"
    by (rule Cons.IH)
  also have "\<dots> \<le> pending_of s c" by (rule pending_clearTimeout)
  finally show ?case by simp
qed

lemma pending_cancelAllPolls: "pending_of (cancelAllPolls s) c \<le> pending_of s c"
  by (simp add: cancelAllPolls_def pending_fold_clear)

lemma pending_clearCache: "pending_of (clearCache s) c \<le> pending_of s c"
  by (simp add: clearCache_def pending_cancelAllPolls)

lemma pending_attempt:
  "pending_of (attempt c' s) c \<le> pending_of s c + (if c' = c then 1 else 0)"
  by (simp add: attempt_def fetchModel_def fetchWorld_def pending_of_def emit_def
      split: option.splits closure.splits)

lemma pending_model_catch:
  "pending_of (model_catch c' t err s) c \<le> pending_of s c + (if c' = c then 1 else 0)"
  by (simp add: model_catch_def Let_def)

lemma pending_loadGLB:
  "pending_of (loadGLB c' t url md s) c \<le> pending_of s c + (if c' = c then 1 else 0)"
proof (cases "loaderClass s")
  case True
  then show ?thesis by (simp add: loadGLB_def pending_of_def emit_def)
next
  case False
  then show ?thesis using pending_model_catch[of c' t GLTFLoaderMissing s c]
    by (simp add: loadGLB_def)
qed

lemma pending_model_then:
  "pending_of (model_then c' t d s) c \<le> pending_of s c + (if c' = c then 1 else 0)"
  using pending_model_catch[of c' t _ "emit (OnProgress c' d) s" c]
        pending_loadGLB[of c' t _ d "emit (OnProgress c' d) s" c]
  by (cases "c' = c") (simp_all add: model_then_def Let_def split: sum.splits)

lemma pending_load_then:
  "pending_of (load_then c' t md scene s) c \<le> pending_of s c + (if c' = c then 1 else 0)"
proof -
  define s1 where "s1 = (case m_placeholder t of None \<Rightarrow> s
     | Some p \<Rightarrow> if parent s p = Some (m_group t)
                then emit (Dispose p) (s\<lparr>parent := (parent s)(p := None)\<rparr>) else s)"
  define s2 where "s2 = s1\<lparr>parent := (parent s1)(scene \<mapsto> m_group t),
                  buuModelData := (buuModelData s1)(m_group t \<mapsto> md)\<rparr>"
  have p1: "pending_of s1 c = pending_of s c"
    by (simp add: s1_def pending_of_def emit_def split: option.splits)
  have p2: "pending_of s2 c = pending_of s c"
    using p1 by (simp add: s2_def pending_of_def)
  have eq: "load_then c' t md scene s = (case cache s2 (''model:'' @ m_id t) of
           None \<Rightarrow> model_catch c' t TypeError s2
         | Some e \<Rightarrow> emit (OnSwap c' scene md) (cancelPoll (m_id t)
                 (s2\<lparr>cache := (cache s2)(''model:'' @ m_id t \<mapsto> e\<lparr>ce_loaded := True\<rparr>)\<rparr>)))"
    by (simp only: load_then_def s1_def s2_def Let_def)
  show ?thesis
  proof (cases "cache s2 (''model:'' @ m_id t)")
    case None
    then show ?thesis using pending_model_catch[of c' t TypeError s2 c] p2 by (simp add: eq)
  next
    case (Some e)
    then show ?thesis
      using pending_cancelPoll[of "m_id t" "s2\<lparr>cache := (cache s2)(''model:'' @ m_id t \<mapsto> e\<lparr>ce_loaded := True\<rparr>)\<rparr>" c] p2
      by (simp add: eq)
  qed
qed

lemma pending_world_catch:
  "pending_of (world_catch c' w err s) c \<le> pending_of s c + (if c' = c then 1 else 0)"
  by (simp add: world_catch_def Let_def)

lemma pending_world_then:
  "pending_of (world_then c' w d s) c \<le> pending_of s c + (if c' = c then 1 else 0)"
proof -
  let ?s1 = "emit (OnProgress c' d) s"
  have a: "pending_of (cancelPoll k (?s1\<lparr>cache := x\<rparr>)) c \<le> pending_of s c" for k x
    using pending_cancelPoll[of k "?s1\<lparr>cache := x\<rparr>" c] by simp
  show ?thesis
    using pending_world_catch[of c' w _ ?s1 c] a a[THEN le_SucI]
    by (cases "c' = c") (simp_all add: world_then_def Let_def split: sum.splits)
qed

lemma pending_fetch_settled:
  "pending_of (fetch_settled c' r s) c \<le> pending_of s c + (if c' = c then 1 else 0)"
  using pending_model_catch[of c' _ _ s c] pending_model_then[of c' _ _ s c]
        pending_world_catch[of c' _ _ s c] pending_world_then[of c' _ _ s c]
  by (cases "c' = c") (simp_all add: fetch_settled_def split: option.splits closure.splits sum.splits)

lemma pending_load_settled:
  "pending_of (load_settled c' md r s) c \<le> pending_of s c + (if c' = c then 1 else 0)"
  using pending_model_catch[of c' _ _ s c] pending_load_then[of c' _ md _ s c]
  by (cases "c' = c") (simp_all add: load_settled_def split: option.splits closure.splits sum.splits)

section \<open>What a turn leaves unchanged\<close>

lemma fold_clearTimeout:
  "fold clearTimeout hs s = s\<lparr>timers := filter (\<lambda>t. fst t \<notin> set hs) (timers s)\<rparr>"
proof (induction hs arbitrary: s)
  case Nil
  show ?case by simp
next
  case (Cons h hs)
  have f: "filter (\<lambda>t. fst t \<notin> set hs) (filter (\<lambda>t. fst t \<noteq> h) xs)
          = filter (\<lambda>t. fst t \<notin> set (h # hs)) xs" for xs :: "(handle \<times> tid \<times> int) list"
    by (induction xs) auto
  have "fold clearTimeout (h # hs) s = fold clearTimeout hs (clearTimeout h s)" by simp
  also have "\<dots> = (clearTimeout h s)\<lparr>timers :=
                 filter (\<lambda>t. fst t \<notin> set hs) (timers (clearTimeout h s))\<rparr>"
    by (rule Cons.IH)
  also have "\<dots> = s\<lparr>timers := filter (\<lambda>t. fst t \<notin> set (h # hs)) (timers s)\<rparr>"
    by (simp add: clearTimeout_def f)
  finally show ?case .
qed

lemmas unfolds = model_catch_def loadGLB_def model_then_def load_then_def
  world_catch_def world_then_def fetch_settled_def load_settled_def attempt_def
  cancelPoll_def cancelAllPolls_def clearCache_def fold_clearTimeout
  emit_def schedule_def setTimeout_def clearTimeout_def settle_def
  fetchModel_def fetchWorld_def Let_def

lemmas splits = option.splits sum.splits closure.splits promise.splits if_splits

lemma frame_fetch_settled:
  "host (fetch_settled c r s) = host s" "next_tid (fetch_settled c r s) = next_tid s"
  "closures (fetch_settled c r s) = closures s" "now (fetch_settled c r s) = now s"
  by (simp_all add: unfolds split: splits)

lemma frame_load_settled:
  "host (load_settled c md r s) = host s" "next_tid (load_settled c md r s) = next_tid s"
  "closures (load_settled c md r s) = closures s" "now (load_settled c md r s) = now s"
  by (simp_all add: unfolds split: splits)

lemma frame_attempt:
  "host (attempt c s) = host s" "next_tid (attempt c s) = next_tid s"
  "closures (attempt c s) = closures s" "now (attempt c s) = now s"
  "cache (attempt c s) = cache s" "promises (attempt c s) = promises s"
  "activePolls (attempt c s) = activePolls s"
  by (simp_all add: unfolds split: splits)

lemma frame_cancel:
  "host (cancelPoll k s) = host s" "next_tid (cancelPoll k s) = next_tid s"
  "closures (cancelPoll k s) = closures s" "cache (cancelPoll k s) = cache s"
  "promises (cancelPoll k s) = promises s" "trace (cancelPoll k s) = trace s"
  "host (cancelAllPolls s) = host s" "next_tid (cancelAllPolls s) = next_tid s"
  "closures (cancelAllPolls s) = closures s" "cache (cancelAllPolls s) = cache s"
  "promises (cancelAllPolls s) = promises s" "trace (cancelAllPolls s) = trace s"
  "host (clearCache s) = host s" "next_tid (clearCache s) = next_tid s"
  "closures (clearCache s) = closures s"
  "promises (clearCache s) = promises s" "trace (clearCache s) = trace s"
  by (simp_all add: unfolds split: splits)

lemma loadModel_cases:
  obtains (unavailable) "\<not> three (host s)" "loadModel i opts s = (None, s)"
  | (cached) e where "three (host s)" "cache s (''model:'' @ i) = Some e" "ce_loaded e"
       "loadModel i opts s = (ce_group e, s)"
  | (fresh) "three (host s)"
      "\<not> (\<exists>e. cache s (''model:'' @ i) = Some e \<and> ce_loaded e)"
      "loadModel i opts s =
         (Some (next_obj s),
          fetchModel (next_tid s) i
           (s\<lparr>next_obj := next_obj s + 2,
              parent := (parent s)(next_obj s + 1 \<mapsto> next_obj s),
              cache := (cache s)(''model:'' @ i \<mapsto>
                 \<lparr>ce_group = Some (next_obj s), ce_loaded = False, ce_data = None, ce_ready = False\<rparr>),
              closures := (closures s)(next_tid s \<mapsto> ModelAttempt
                 \<lparr>m_id = i, m_group = next_obj s, m_placeholder = Some (next_obj s + 1),
                  m_poll = poll_of opts, m_pollInterval = or_default (opt_pollInterval opts) 5000,
                  m_maxPollTime = or_default (opt_maxPollTime opts) 300000, m_startTime = now s\<rparr>),
              next_tid := next_tid s + 1\<rparr>))"
proof (cases "three (host s)")
  case False
  then show ?thesis using unavailable by (simp add: loadModel_def threeAvailable_def)
next
  case True
  show ?thesis
  proof (cases "\<exists>e. cache s (''model:'' @ i) = Some e \<and> ce_loaded e")
    case True
    then obtain e where e: "cache s (''model:'' @ i) = Some e" "ce_loaded e" by blast
    with \<open>three (host s)\<close> have "loadModel i opts s = (ce_group e, s)"
      by (simp add: loadModel_def threeAvailable_def)
    with e \<open>three (host s)\<close> show ?thesis using cached by blast
  next
    case False
    then have n: "\<And>e. cache s (''model:'' @ i) = Some e \<Longrightarrow> \<not> ce_loaded e" by blast
    then have c: "(case cache s (''model:'' @ i) of None \<Rightarrow> None
                 | Some e \<Rightarrow> if ce_loaded e then Some e else None) = None"
      by (cases "cache s (''model:'' @ i)") auto
    have "loadModel i opts s =
         (Some (next_obj s),
          fetchModel (next_tid s) i
           (s\<lparr>next_obj := next_obj s + 2,
              parent := (parent s)(next_obj s + 1 \<mapsto> next_obj s),
              cache := (cache s)(''model:'' @ i \<mapsto>
                 \<lparr>ce_group = Some (next_obj s), ce_loaded = False, ce_data = None, ce_ready = False\<rparr>),
              closures := (closures s)(next_tid s \<mapsto> ModelAttempt
                 \<lparr>m_id = i, m_group = next_obj s, m_placeholder = Some (next_obj s + 1),
                  m_poll = poll_of opts, m_pollInterval = or_default (opt_pollInterval opts) 5000,
                  m_maxPollTime = or_default (opt_maxPollTime opts) 300000, m_startTime = now s\<rparr>),
              next_tid := next_tid s + 1\<rparr>))"
      unfolding loadModel_def c using True
      by (simp add: threeAvailable_def startModelLoad_def attempt_def Let_def)
    then show ?thesis by (rule fresh[OF True False])
  qed
qed

lemma loadWorld_cases:
  obtains (cached) e where "cache s (''world:'' @ i) = Some e" "ce_ready e"
       "loadWorld i opts s = (Cached (ce_data e), s)"
  | (fresh)
      "\<not> (\<exists>e. cache s (''world:'' @ i) = Some e \<and> ce_ready e)"
      "loadWorld i opts s =
         (Promise (next_tid s),
          fetchWorld (next_tid s) i
           (s\<lparr>closures := (closures s)(next_tid s \<mapsto> WorldAttempt
                 \<lparr>w_id = i, w_poll = poll_of opts,
                  w_pollInterval = or_default (opt_pollInterval opts) 5000,
                  w_maxPollTime = or_default (opt_maxPollTime opts) 300000, w_startTime = now s\<rparr>),
              promises := (promises s)(next_tid s \<mapsto> Pending),
              next_tid := next_tid s + 1\<rparr>))"
proof (cases "\<exists>e. cache s (''world:'' @ i) = Some e \<and> ce_ready e")
  case True
  then obtain e where e: "cache s (''world:'' @ i) = Some e" "ce_ready e" by blast
  then have "loadWorld i opts s = (Cached (ce_data e), s)"
    by (simp add: loadWorld_def)
  with e show ?thesis using cached by blast
next
  case False
  then have n: "\<And>e. cache s (''world:'' @ i) = Some e \<Longrightarrow> \<not> ce_ready e" by blast
  then have c: "(case cache s (''world:'' @ i) of None \<Rightarrow> None
               | Some e \<Rightarrow> if ce_ready e then Some e else None) = None"
    by (cases "cache s (''world:'' @ i)") auto
  have "loadWorld i opts s =
         (Promise (next_tid s),
          fetchWorld (next_tid s) i
           (s\<lparr>closures := (closures s)(next_tid s \<mapsto> WorldAttempt
                 \<lparr>w_id = i, w_poll = poll_of opts,
                  w_pollInterval = or_default (opt_pollInterval opts) 5000,
                  w_maxPollTime = or_default (opt_maxPollTime opts) 300000, w_startTime = now s\<rparr>),
              promises := (promises s)(next_tid s \<mapsto> Pending),
              next_tid := next_tid s + 1\<rparr>))"
    unfolding loadWorld_def c
    by (simp add: attempt_def Let_def)
  then show ?thesis by (rule fresh[OF False])
qed

section \<open>Every turn keeps the pending activities in bounds\<close>

lemma step_host: "step e s = Some s' \<Longrightarrow> host s' = host s"
proof (cases e)
  case (LoadModel i opts)
  assume "step e s = Some s'"
  with LoadModel show ?thesis
    by (cases i opts s rule: loadModel_cases) (auto simp: fetchModel_def emit_def)
next
  case (LoadWorld i opts)
  assume "step e s = Some s'"
  with LoadWorld show ?thesis
    by (cases i opts s rule: loadWorld_cases) (auto simp: fetchWorld_def emit_def)
qed (auto simp: frame_fetch_settled frame_load_settled frame_attempt frame_cancel
       split: option.splits if_splits)

lemma step_next_tid: "step e s = Some s' \<Longrightarrow> next_tid s \<le> next_tid s'"
proof (cases e)
  case (LoadModel i opts)
  assume "step e s = Some s'"
  with LoadModel show ?thesis
    by (cases i opts s rule: loadModel_cases) (auto simp: fetchModel_def emit_def)
next
  case (LoadWorld i opts)
  assume "step e s = Some s'"
  with LoadWorld show ?thesis
    by (cases i opts s rule: loadWorld_cases) (auto simp: fetchWorld_def emit_def)
qed (auto simp: frame_fetch_settled frame_load_settled frame_attempt frame_cancel
       split: option.splits if_splits)

lemma pending_remove_fetch:
  "c' \<in> set (fetches s) \<Longrightarrow>
   pending_of (s\<lparr>fetches := remove1 c' (fetches s)\<rparr>) c + (if c' = c then 1 else 0) = pending_of s c"
  using count_remove1[of c' "fetches s" id c] by (simp add: pending_of_def)

lemma pending_remove_load:
  "l \<in> set (loads s) \<Longrightarrow>
   pending_of (s\<lparr>loads := remove1 l (loads s)\<rparr>) c + (if fst l = c then 1 else 0) = pending_of s c"
  using count_remove1[of l "loads s" fst c] by (simp add: pending_of_def)

lemma pending_remove_timer:
  "t \<in> set (timers s) \<Longrightarrow>
   pending_of (s\<lparr>timers := remove1 t (timers s)\<rparr>) c + (if fst (snd t) = c then 1 else 0) = pending_of s c"
  using count_remove1[of t "timers s" "\<lambda>t. fst (snd t)" c] by (simp add: pending_of_def)

lemma find_SomeD: "find P xs = Some x \<Longrightarrow> x \<in> set xs \<and> P x"
  by (induction xs) (auto split: if_splits)

lemma step_pending:
  assumes "step e s = Some s'"
  shows "pending_of s' c \<le> pending_of s c + (if next_tid s \<le> c \<and> c < next_tid s' then 1 else 0)"
proof (cases e)
  case (LoadModel i opts)
  with assms show ?thesis
    by (cases i opts s rule: loadModel_cases) (auto simp: fetchModel_def emit_def pending_of_def)
next
  case (LoadWorld i opts)
  with assms show ?thesis
    by (cases i opts s rule: loadWorld_cases) (auto simp: fetchWorld_def emit_def pending_of_def)
next
  case (CancelPoll k)
  with assms show ?thesis using pending_cancelPoll[of k s c] by auto
next
  case CancelAllPolls
  with assms show ?thesis using pending_cancelAllPolls[of s c] by auto
next
  case ClearCache
  with assms show ?thesis using pending_clearCache[of s c] by auto
next
  case (SetGLTFLoader b)
  with assms show ?thesis by (auto simp: pending_of_def)
next
  case (FetchSettles c' r)
  with assms have in_f: "c' \<in> set (fetches s)"
    and s': "s' = fetch_settled c' r (s\<lparr>fetches := remove1 c' (fetches s)\<rparr>)"
    by (auto split: if_splits)
  show ?thesis
    using pending_fetch_settled[of c' r "s\<lparr>fetches := remove1 c' (fetches s)\<rparr>" c]
          pending_remove_fetch[OF in_f, of c]
    by (simp add: s' split: if_splits)
next
  case (LoadSettles c' r)
  with assms obtain l where f: "find (\<lambda>l. fst l = c') (loads s) = Some l"
    and s': "s' = load_settled c' (snd (snd l)) r (s\<lparr>loads := remove1 l (loads s)\<rparr>)"
    by (auto split: option.splits)
  from find_SomeD[OF f] have l: "l \<in> set (loads s)" "fst l = c'" by auto
  show ?thesis
    using pending_load_settled[of c' "snd (snd l)" r "s\<lparr>loads := remove1 l (loads s)\<rparr>" c]
          pending_remove_load[OF l(1), of c] l(2)
    by (simp add: s' split: if_splits)
next
  case (TimerFires h)
  with assms obtain t where f: "find (\<lambda>t. fst t = h) (timers s) = Some t"
    and s': "s' = attempt (fst (snd t)) (s\<lparr>timers := remove1 t (timers s)\<rparr>)"
    by (auto split: option.splits if_splits)
  from find_SomeD[OF f] have t: "t \<in> set (timers s)" by auto
  show ?thesis
    using pending_attempt[of "fst (snd t)" "s\<lparr>timers := remove1 t (timers s)\<rparr>" c]
          pending_remove_timer[OF t, of c]
    by (simp add: s' split: if_splits)
next
  case (Advance d)
  with assms show ?thesis by (auto simp: pending_of_def)
next
  case (Detach x)
  with assms show ?thesis by (auto simp: pending_of_def)
qed

lemma run_append:
  "run (xs @ ys) s = (case run xs s of None \<Rightarrow> None | Some s' \<Rightarrow> run ys s')"
  by (induction xs arbitrary: s) (auto split: option.splits)

lemma run_induct:
  assumes "run es s = Some s'" and "P s"
    and "\<And>e s s'. P s \<Longrightarrow> step e s = Some s' \<Longrightarrow> P s'"
  shows "P s'"
  using assms(1,2)
proof (induction es arbitrary: s)
  case Nil
  then show ?case by simp
next
  case (Cons e es)
  then obtain s1 where s1: "step e s = Some s1" "run es s1 = Some s'"
    by (auto split: option.splits)
  from Cons.prems(2) s1(1) have "P s1" by (rule assms(3))
  with s1(2) show ?case by (rule Cons.IH)
qed

lemma step_bounded:
  assumes "\<forall>c. pending_of s c \<le> (if c < next_tid s then 1 else 0)" "step e s = Some s'"
  shows "\<forall>c. pending_of s' c \<le> (if c < next_tid s' then 1 else 0)"
proof
  fix c
  from step_pending[OF assms(2), of c] step_next_tid[OF assms(2)] assms(1)[rule_format, of c]
  show "pending_of s' c \<le> (if c < next_tid s' then 1 else 0)"
    by (auto split: if_splits)
qed

lemma run_bounded:
  assumes "run es (init h t0) = Some s"
  shows "pending_of s c \<le> (if c < next_tid s then 1 else 0)"
proof -
  have "\<forall>c. pending_of s c \<le> (if c < next_tid s then 1 else 0)"
  proof (rule run_induct[OF assms, where P = "\<lambda>s. \<forall>c. pending_of s c \<le> (if c < next_tid s then 1 else 0)"])
    show "\<forall>c. pending_of (init h t0) c \<le> (if c < next_tid (init h t0) then 1 else 0)"
      by (simp add: init_def pending_of_def)
  qed (rule step_bounded)
  then show ?thesis by blast
qed

section \<open>The cache\<close>

lemma key_neq [simp]: "''model:'' @ i \<noteq> ''world:'' @ j" "''world:'' @ j \<noteq> ''model:'' @ i"
  by simp_all

lemma cache_fetch_settled:
  "cache (fetch_settled c r s) k = cache s k \<or>
   (\<exists>w res. closures s c = Some (WorldAttempt w) \<and> k = ''world:'' @ w_id w \<and>
      cache (fetch_settled c r s) k =
        Some \<lparr>ce_group = None, ce_loaded = False, ce_data = Some res, ce_ready = True\<rparr>)"
  by (simp add: unfolds split: splits)

lemma cache_load_settled:
  "cache (load_settled c md r s) k = cache s k \<or>
   (\<exists>t e. closures s c = Some (ModelAttempt t) \<and> k = ''model:'' @ m_id t \<and> cache s k = Some e \<and>
      cache (load_settled c md r s) k = Some (e\<lparr>ce_loaded := True\<rparr>))"
  by (simp add: unfolds split: splits)

lemma step_cache:
  assumes "step e s = Some s'" "e \<noteq> ClearCache"
  shows "cache s' (''model:'' @ i) = cache s (''model:'' @ i)
       \<or> (\<exists>en. cache s (''model:'' @ i) = Some en \<and>
             cache s' (''model:'' @ i) = Some (en\<lparr>ce_loaded := True\<rparr>))
       \<or> (three (host s) \<and> \<not> (\<exists>en. cache s (''model:'' @ i) = Some en \<and> ce_loaded en) \<and>
            (\<exists>g. cache s' (''model:'' @ i) =
               Some \<lparr>ce_group = Some g, ce_loaded = False, ce_data = None, ce_ready = False\<rparr>))"
proof (cases e)
  case (LoadModel j opts)
  show ?thesis
  proof (cases j opts s rule: loadModel_cases)
    case unavailable
    with LoadModel assms show ?thesis by simp
  next
    case (cached e)
    with LoadModel assms show ?thesis by simp
  next
    case fresh
    from LoadModel assms have "s' = snd (loadModel j opts s)" by simp
    then have
      c: "cache s' = (cache s)(''model:'' @ j \<mapsto>
           \<lparr>ce_group = Some (next_obj s), ce_loaded = False, ce_data = None, ce_ready = False\<rparr>)"
      unfolding fresh(3) by (simp add: fetchModel_def emit_def)
    show ?thesis
    proof (cases "i = j")
      case True
      with fresh(1,2) c show ?thesis by simp
    next
      case False
      with c show ?thesis by simp
    qed
  qed
next
  case (LoadWorld j opts)
  with assms show ?thesis
    by (cases j opts s rule: loadWorld_cases) (auto simp: fetchWorld_def emit_def)
next
  case (FetchSettles c r)
  with assms have "s' = fetch_settled c r (s\<lparr>fetches := remove1 c (fetches s)\<rparr>)"
    by (auto split: if_splits)
  then show ?thesis
    using cache_fetch_settled[of c r "s\<lparr>fetches := remove1 c (fetches s)\<rparr>" "''model:'' @ i"]
    by auto
next
  case (LoadSettles c r)
  with assms obtain l where
    "s' = load_settled c (snd (snd l)) r (s\<lparr>loads := remove1 l (loads s)\<rparr>)"
    by (auto split: option.splits)
  then show ?thesis
    using cache_load_settled[of c "snd (snd l)" r "s\<lparr>loads := remove1 l (loads s)\<rparr>" "''model:'' @ i"]
    by auto
qed (use assms in \<open>auto simp: frame_attempt frame_cancel split: option.splits if_splits\<close>)

lemma step_cache_loaded:
  assumes "step e s = Some s'" "e \<noteq> ClearCache"
    and "cache s (''model:'' @ i) = Some en" "ce_loaded en"
  shows "cache s' (''model:'' @ i) = Some en"
  using step_cache[OF assms(1,2), of i] assms(3,4) by auto

lemma run_cache_loaded:
  assumes "run es s = Some s'" "ClearCache \<notin> set es"
    and "cache s (''model:'' @ i) = Some en" "ce_loaded en"
  shows "cache s' (''model:'' @ i) = Some en"
  using assms
proof (induction es arbitrary: s)
  case Nil
  then show ?case by simp
next
  case (Cons e es)
  then obtain s1 where s1: "step e s = Some s1" "run es s1 = Some s'"
    by (auto split: option.splits)
  from Cons.prems have "e \<noteq> ClearCache" "ClearCache \<notin> set es" by auto
  with s1 Cons.prems(3,4) Cons.IH[of s1] step_cache_loaded[of e s s1 i en]
  show ?case by blast
qed

lemma step_cache_inv:
  assumes inv: "\<forall>i en. cache s (''model:'' @ i) = Some en \<longrightarrow> three (host s) \<and> ce_group en \<noteq> None"
    and st: "step e s = Some s'"
  shows "\<forall>i en. cache s' (''model:'' @ i) = Some en \<longrightarrow> three (host s') \<and> ce_group en \<noteq> None"
proof (cases "e = ClearCache")
  case True
  with st show ?thesis by (auto simp: clearCache_def)
next
  case False
  show ?thesis
  proof (intro allI impI)
    fix i en
    assume c: "cache s' (''model:'' @ i) = Some en"
    from step_cache[OF st False, of i] consider
        (same) "cache s' (''model:'' @ i) = cache s (''model:'' @ i)"
      | (marked) en0 where "cache s (''model:'' @ i) = Some en0"
          "cache s' (''model:'' @ i) = Some (en0\<lparr>ce_loaded := True\<rparr>)"
      | (created) g where "three (host s)"
          "cache s' (''model:'' @ i) =
             Some \<lparr>ce_group = Some g, ce_loaded = False, ce_data = None, ce_ready = False\<rparr>"
      by blast
    then show "three (host s') \<and> ce_group en \<noteq> None"
    proof cases
      case same
      with c have "cache s (''model:'' @ i) = Some en" by simp
      with inv show ?thesis unfolding step_host[OF st] by blast
    next
      case marked
      from marked(1) inv have "three (host s) \<and> ce_group en0 \<noteq> None" by blast
      moreover from marked(2) c have "en = en0\<lparr>ce_loaded := True\<rparr>" by simp
      ultimately show ?thesis unfolding step_host[OF st] by simp
    next
      case created
      with c have "en = \<lparr>ce_group = Some g, ce_loaded = False, ce_data = None, ce_ready = False\<rparr>"
        by simp
      with created(1) show ?thesis unfolding step_host[OF st] by simp
    qed
  qed
qed

lemma run_cache_inv:
  assumes "run es (init h t0) = Some s" "cache s (''model:'' @ i) = Some en"
  shows "three (host s) \<and> ce_group en \<noteq> None"
proof -
  have "\<forall>i en. cache s (''model:'' @ i) = Some en \<longrightarrow> three (host s) \<and> ce_group en \<noteq> None"
  proof (rule run_induct[OF assms(1), where
      P = "\<lambda>s. \<forall>i en. cache s (''model:'' @ i) = Some en \<longrightarrow> three (host s) \<and> ce_group en \<noteq> None"])
    show "\<forall>i en. cache (init h t0) (''model:'' @ i) = Some en \<longrightarrow>
            three (host (init h t0)) \<and> ce_group en \<noteq> None"
      by (simp add: init_def)
  qed (rule step_cache_inv)
  with assms(2) show ?thesis by blast
qed

section \<open>The poll registry\<close>

lemma distinct_fetch_settled:
  "distinct (map fst (activePolls s)) \<Longrightarrow> distinct (map fst (activePolls (fetch_settled c r s)))"
  by (simp add: unfolds distinct_update distinct_delete split: splits)

lemma distinct_load_settled:
  "distinct (map fst (activePolls s)) \<Longrightarrow> distinct (map fst (activePolls (load_settled c md r s)))"
  by (simp add: unfolds distinct_update distinct_delete split: splits)

lemma step_distinct:
  assumes "distinct (map fst (activePolls s))" "step e s = Some s'"
  shows "distinct (map fst (activePolls s'))"
proof (cases e)
  case (LoadModel j opts)
  with assms show ?thesis
    by (cases j opts s rule: loadModel_cases) (auto simp: fetchModel_def emit_def)
next
  case (LoadWorld j opts)
  with assms show ?thesis
    by (cases j opts s rule: loadWorld_cases) (auto simp: fetchWorld_def emit_def)
next
  case (FetchSettles c r)
  with assms show ?thesis
    using distinct_fetch_settled[of "s\<lparr>fetches := remove1 c (fetches s)\<rparr>" c r]
    by (auto split: if_splits)
next
  case (LoadSettles c r)
  with assms show ?thesis
    using distinct_load_settled[of "s\<lparr>loads := remove1 l (loads s)\<rparr>" c _ r for l]
    by (auto split: option.splits)
qed (use assms in \<open>auto simp: frame_attempt cancelPoll_def clearTimeout_def cancelAllPolls_def
       clearCache_def fold_clearTimeout distinct_delete split: option.splits if_splits\<close>)

lemma run_distinct:
  assumes "run es (init h t0) = Some s"
  shows "distinct (map fst (activePolls s))"
  by (rule run_induct[OF assms, where P = "\<lambda>s. distinct (map fst (activePolls s))"])
     (simp_all add: init_def step_distinct)

section \<open>Requests of the same model\<close>

text \<open>
  Claim C1, as stated: calling \<^verbatim>\<open>loadModel\<close> a second time with the same model id before
  the first resolution completes creates no second fetch attempt in flight, so that a key
  never has more than one attempt in flight. The cache check of \<^verbatim>\<open>loadModel\<close> only
  returns an entry whose mesh is loaded, so the second call starts a closure of its own:
  after two requests of model \<^verbatim>\<open>m\<close>, two fetches for \<^verbatim>\<open>m\<close> are outstanding, one issued by
  each closure.
\<close>

theorem second_request_second_fetch:
  "run requested_twice (init browser 0) \<noteq> None
   \<and> in_flight (the (run requested_twice (init browser 0))) ''m'' = 2
   \<and> fetch_times 0 (trace (the (run requested_twice (init browser 0)))) = [0]
   \<and> fetch_times 1 (trace (the (run requested_twice (init browser 0)))) = [0]"
  by (simp add: requested_twice_def exec in_flight_def resolves_def)

text \<open>
  Claim C1, amended: the attempts of one resolution task are strictly sequential. In
  every state the engine can reach, a closure has at most one pending activity (an
  outstanding fetch, an outstanding load or a scheduled timer), and the poll registry
  holds at most one entry per key. A request for an id whose cache entry is not loaded
  starts a new closure for that id and issues its first fetch.
\<close>

theorem one_pending_activity_per_task:
  assumes "run es (init h t0) = Some s"
  shows "pending_of s c \<le> 1 \<and> distinct (map fst (activePolls s))
       \<and> (three (host s) \<and> \<not> (\<exists>e. cache s (''model:'' @ i) = Some e \<and> ce_loaded e) \<longrightarrow>
            fetches (snd (loadModel i opts s)) = fetches s @ [next_tid s]
          \<and> resolves (snd (loadModel i opts s)) i (next_tid s))"
proof (intro conjI impI)
  assume a: "three (host s) \<and> \<not> (\<exists>e. cache s (''model:'' @ i) = Some e \<and> ce_loaded e)"
  then have "fetches (snd (loadModel i opts s)) = fetches s @ [next_tid s]
          \<and> resolves (snd (loadModel i opts s)) i (next_tid s)"
    by (cases i opts s rule: loadModel_cases)
       (auto simp: fetchModel_def emit_def resolves_def)
  then show "fetches (snd (loadModel i opts s)) = fetches s @ [next_tid s]"
    and "resolves (snd (loadModel i opts s)) i (next_tid s)" by simp_all
next
  from run_bounded[OF assms, of c] show "pending_of s c \<le> 1" by (auto split: if_splits)
  from run_distinct[OF assms] show "distinct (map fst (activePolls s))" .
qed

theorem one_pending_activity_per_task_witness:
  "pending_of (the (run requested_twice (init browser 0))) 0 \<le> 1
   \<and> pending_of (the (run requested_twice (init browser 0))) 1 \<le> 1
   \<and> distinct (map fst (activePolls (the (run requested_twice (init browser 0)))))
   \<and> fetches (snd (loadModel ''m'' defaults (the (run requested_twice (init browser 0)))))
       = [0, 1, 2]"
  using one_pending_activity_per_task[of requested_twice browser 0
          "the (run requested_twice (init browser 0))" 0 "''m''" defaults]
        one_pending_activity_per_task[of requested_twice browser 0
          "the (run requested_twice (init browser 0))" 1 "''m''" defaults]
  by (simp add: requested_twice_def exec)

section \<open>Requests of a loaded model\<close>

text \<open>
  Claim C7. Once the cache entry of a model id is loaded, every later \<^verbatim>\<open>loadModel\<close> call
  for that id returns the cached container and changes nothing: no fetch is issued, no
  closure is created. The entry stays as it is, loaded, through every later turn of the
  event loop other than an explicit cache clear.
\<close>

theorem loaded_model_served_from_cache:
  assumes "run es (init h t0) = Some s"
    and "cache s (''model:'' @ i) = Some en" and "ce_loaded en"
    and "ClearCache \<notin> set es'" and "run es' s = Some s'"
  shows "loadModel i opts s = (ce_group en, s) \<and> ce_group en \<noteq> None
       \<and> cache s' (''model:'' @ i) = Some en
       \<and> loadModel i opts' s' = (ce_group en, s')"
proof (intro conjI)
  from run_cache_inv[OF assms(1,2)] have t: "three (host s)" and g: "ce_group en \<noteq> None"
    by auto
  from t assms(2,3) show "loadModel i opts s = (ce_group en, s)"
    by (cases i opts s rule: loadModel_cases) auto
  from g show "ce_group en \<noteq> None" .
  from run_cache_loaded[OF assms(5,4,2,3)] show c': "cache s' (''model:'' @ i) = Some en" .
  from assms(1,5) have "run (es @ es') (init h t0) = Some s'" by (simp add: run_append)
  from run_cache_inv[OF this c'] have "three (host s')" by simp
  with c' assms(3) show "loadModel i opts' s' = (ce_group en, s')"
    by (cases i opts' s' rule: loadModel_cases) auto
qed

theorem loaded_model_served_from_cache_witness:
  "loadModel ''m'' defaults (the (run loaded_once (init browser 0)))
     = (Some 0, the (run loaded_once (init browser 0)))
   \<and> cache (the (run ([LoadModel ''m'' defaults, CancelPoll ''m'', Advance 600000])
                (the (run loaded_once (init browser 0))))) ''model:m''
     = Some \<lparr>ce_group = Some 0, ce_loaded = True, ce_data = None, ce_ready = False\<rparr>
   \<and> loadModel ''m'' (timed_options 1 1)
        (the (run ([LoadModel ''m'' defaults, CancelPoll ''m'', Advance 600000])
                (the (run loaded_once (init browser 0)))))
     = (Some 0, the (run ([LoadModel ''m'' defaults, CancelPoll ''m'', Advance 600000])
                (the (run loaded_once (init browser 0)))))"
  using loaded_model_served_from_cache[of loaded_once browser 0
          "the (run loaded_once (init browser 0))" "''m''"
          "\<lparr>ce_group = Some 0, ce_loaded = True, ce_data = None, ce_ready = False\<rparr>"
          "[LoadModel ''m'' defaults, CancelPoll ''m'', Advance 600000]"
          "the (run ([LoadModel ''m'' defaults, CancelPoll ''m'', Advance 600000])
                (the (run loaded_once (init browser 0))))" defaults "timed_options 1 1"]
  by (simp add: loaded_once_def exec)

section \<open>The polling budget\<close>

text \<open>
  Claim C2, as stated: with a ceiling of 12000 ms and an interval of 5000 ms, a task
  whose descriptor never has a mesh URL makes exactly three fetch attempts (at 0, 5000
  and 10000) and skips the one that would fire at 15000. The budget is compared with the
  time elapsed when an outcome is processed, not with the next fire time: after the
  third attempt (elapsed 10000, below 12000) a timer due at 15000 is pending and no
  error has been reported, and the fourth attempt fires at 15000.
\<close>

theorem fourth_attempt_after_ceiling:
  "timers (the (run (never_ready 5000 12000 no_mesh 2) (init browser 0))) = [(3, 0, 15000)]
   \<and> trace (the (run (never_ready 5000 12000 no_mesh 2) (init browser 0))) =
       [FetchModel 0 ''m'' 0, OnProgress 0 no_mesh,
        FetchModel 0 ''m'' 5000, OnProgress 0 no_mesh,
        FetchModel 0 ''m'' 10000, OnProgress 0 no_mesh]
   \<and> run (never_ready 5000 12000 no_mesh 3) (init browser 0) \<noteq> None
   \<and> fetch_times 0 (trace (the (run (never_ready 5000 12000 no_mesh 3) (init browser 0))))
       = [0, 5000, 10000, 15000]"
  by (simp add: exec)

lemma not_ready_decision:
  assumes "closures s c = Some (ModelAttempt t)" "c \<in> set (fetches s)"
    and "resolveMeshUrl d = Inr u" "\<not> truthy u" "m_poll t"
  shows "\<exists>s'. step (FetchSettles c (Inr d)) s = Some s' \<and>
     (if now s - m_startTime t < m_maxPollTime t
      then timers s' = timers s @ [(next_handle s, c, now s + timer_delay (m_pollInterval t))]
         \<and> trace s' = trace s @ [OnProgress c d]
      else timers s' = timers s
         \<and> trace s' = trace s @ [OnProgress c d,
              OnError c (MaxPollTimeReached (''model '' @ m_id t))])"
  using assms
  by (simp add: fetch_settled_def model_then_def emit_def schedule_def setTimeout_def Let_def)

lemma waiting_first:
  assumes "three h" "0 < I" "I \<le> 2147483647" "0 < M"
    and "resolveMeshUrl d = Inr u" "\<not> truthy u"
  shows "\<exists>s. run [LoadModel ''m'' (timed_options I M), FetchSettles 0 (Inr d)] (init h t0) = Some s
           \<and> waiting t0 I M 0 s"
proof -
  from assms(3) have td: "timer_delay (int I) = int I" by (simp add: timer_delay_in_range)
  show ?thesis
    using assms
    by (simp add: waiting_def timed_options_def init_def loadModel_def threeAvailable_def
        startModelLoad_def attempt_def fetchModel_def emit_def poll_of_def or_default_def
        fetch_settled_def model_then_def schedule_def setTimeout_def Let_def td)
qed

lemma waiting_next:
  assumes "waiting t0 I M k s" "Suc k * I < M" "I \<le> 2147483647"
    and "resolveMeshUrl d = Inr u" "\<not> truthy u"
  shows "\<exists>s'. run (wait_round I d (Suc k)) s = Some s' \<and> waiting t0 I M (Suc k) s'"
proof -
  from assms(2) have "int (Suc k * I) < int M" by (simp only: of_nat_less_iff)
  then have a: "int I + int I * int k < int M" by (simp add: algebra_simps)
  from assms(3) have td: "timer_delay (int I) = int I" by (simp add: timer_delay_in_range)
  show ?thesis
    using assms a
    by (simp add: waiting_def wait_round_def attempt_def fetchModel_def emit_def
        fetch_settled_def model_then_def schedule_def setTimeout_def Let_def
        fetch_times_append td algebra_simps)
qed

lemma waiting_last:
  assumes "waiting t0 I M k s" "M \<le> Suc k * I" "resolveMeshUrl d = Inr u" "\<not> truthy u"
  shows "\<exists>s'. run (wait_round I d (Suc k)) s = Some s'
           \<and> fetch_times 0 (trace s') = map (\<lambda>j. t0 + int (j * I)) [0..<Suc (Suc k)]
           \<and> timers s' = [] \<and> fetches s' = []
           \<and> last (trace s') = OnError 0 (MaxPollTimeReached ''model m'')"
proof -
  from assms(2) have "int M \<le> int (Suc k * I)" by (simp only: of_nat_le_iff)
  then have a: "\<not> int I + int I * int k < int M" by (simp add: algebra_simps)
  show ?thesis
  using assms a
  by (simp add: waiting_def wait_round_def attempt_def fetchModel_def emit_def
      fetch_settled_def model_then_def schedule_def setTimeout_def Let_def
      fetch_times_append algebra_simps)
qed

lemma waiting_run:
  assumes "three h" "0 < I" "I \<le> 2147483647" "k * I < M"
    and "resolveMeshUrl d = Inr u" "\<not> truthy u"
  shows "\<exists>s. run (never_ready I M d k) (init h t0) = Some s \<and> waiting t0 I M k s"
  using assms(4)
proof (induction k)
  case 0
  then have "0 < M" by simp
  from waiting_first[OF assms(1,2,3) this assms(5,6), of t0] show ?case
    by (simp add: never_ready_def)
next
  case (Suc k)
  from Suc.prems assms(2) have "k * I < M" by simp
  from Suc.IH[OF this] obtain s where
    s: "run (never_ready I M d k) (init h t0) = Some s" "waiting t0 I M k s" by blast
  from waiting_next[OF s(2) Suc.prems assms(3,5,6)] obtain s' where
    s': "run (wait_round I d (Suc k)) s = Some s'" "waiting t0 I M (Suc k) s'" by blast
  have "never_ready I M d (Suc k) = never_ready I M d k @ wait_round I d (Suc k)"
    by (simp add: never_ready_def)
  with s(1) s' show ?case by (simp add: run_append)
qed

lemma never_ready_attempts:
  assumes "three h" "0 < I" "I \<le> 2147483647" "k * I < M" "M \<le> Suc k * I"
    and "resolveMeshUrl d = Inr u" "\<not> truthy u"
  shows "\<exists>s. run (never_ready I M d (Suc k)) (init h t0) = Some s
           \<and> fetch_times 0 (trace s) = map (\<lambda>j. t0 + int (j * I)) [0..<Suc (Suc k)]
           \<and> timers s = [] \<and> fetches s = []
           \<and> last (trace s) = OnError 0 (MaxPollTimeReached ''model m'')"
proof -
  from waiting_run[OF assms(1,2,3,4,6,7), of t0] obtain s where
    s: "run (never_ready I M d k) (init h t0) = Some s" "waiting t0 I M k s" by blast
  from waiting_last[OF s(2) assms(5,6,7)] obtain s' where
    s': "run (wait_round I d (Suc k)) s = Some s'"
        "fetch_times 0 (trace s') = map (\<lambda>j. t0 + int (j * I)) [0..<Suc (Suc k)]"
        "timers s' = []" "fetches s' = []"
        "last (trace s') = OnError 0 (MaxPollTimeReached ''model m'')" by blast
  have "never_ready I M d (Suc k) = never_ready I M d k @ wait_round I d (Suc k)"
    by (simp add: never_ready_def)
  with s(1) s' show ?thesis by (simp add: run_append)
qed

text \<open>
  Claim C2, amended: when a fetch delivers a descriptor without a mesh URL and polling
  is enabled, the task schedules the next attempt exactly when the time elapsed since
  the task started, at that moment, is below the ceiling; otherwise it schedules nothing
  and invokes the error callback with the max-poll-time error. The timer is set to the
  interval as the host reads it, which is the interval itself up to 2147483647 ms (an
  interval of 3000000000 ms is read as zero). So,
  with fetches answered at once, an interval \<open>I\<close> of at most 2147483647 ms and a ceiling
  \<open>M\<close>, the attempts fire at \<open>0, I, ..., n * I\<close> for the least \<open>n\<close> with \<open>M \<le> n * I\<close>, and
  the task gives up when the last one is answered. With a ceiling of 12000 ms and an
  interval of 5000 ms these are exactly four attempts, at 0, 5000, 10000 and 15000.
\<close>

theorem polling_stops_after_ceiling:
  "(closures s c = Some (ModelAttempt t) \<and> c \<in> set (fetches s) \<and>
    resolveMeshUrl d = Inr u \<and> \<not> truthy u \<and> m_poll t \<longrightarrow>
    (\<exists>s'. step (FetchSettles c (Inr d)) s = Some s' \<and>
     (if now s - m_startTime t < m_maxPollTime t
      then timers s' = timers s @ [(next_handle s, c, now s + timer_delay (m_pollInterval t))]
         \<and> trace s' = trace s @ [OnProgress c d]
      else timers s' = timers s
         \<and> trace s' = trace s @ [OnProgress c d,
              OnError c (MaxPollTimeReached (''model '' @ m_id t))])))
   \<and> (0 \<le> m_pollInterval t \<and> m_pollInterval t \<le> 2147483647 \<longrightarrow>
        timer_delay (m_pollInterval t) = m_pollInterval t)
   \<and> timer_delay 3000000000 = 0
   \<and> (three h \<and> 0 < I \<and> I \<le> 2147483647 \<and> 0 < M \<and> k * I < M \<and> M \<le> Suc k * I \<and>
      resolveMeshUrl d = Inr u \<and> \<not> truthy u \<longrightarrow>
      (\<exists>s. run (never_ready I M d (Suc k)) (init h t0) = Some s
         \<and> fetch_times 0 (trace s) = map (\<lambda>j. t0 + int (j * I)) [0..<Suc (Suc k)]
         \<and> timers s = [] \<and> fetches s = []
         \<and> last (trace s) = OnError 0 (MaxPollTimeReached ''model m'')))
   \<and> fetch_times 0 (trace (the (run (never_ready 5000 12000 no_mesh 3) (init browser 0))))
        = [0, 5000, 10000, 15000]
   \<and> last (trace (the (run (never_ready 5000 12000 no_mesh 3) (init browser 0))))
        = OnError 0 (MaxPollTimeReached ''model m'')
   \<and> timers (the (run (never_ready 5000 12000 no_mesh 3) (init browser 0))) = []
   \<and> fetches (the (run (never_ready 5000 12000 no_mesh 3) (init browser 0))) = []"
proof (intro conjI impI)
  assume "closures s c = Some (ModelAttempt t) \<and> c \<in> set (fetches s) \<and>
    resolveMeshUrl d = Inr u \<and> \<not> truthy u \<and> m_poll t"
  then show "\<exists>s'. step (FetchSettles c (Inr d)) s = Some s' \<and>
     (if now s - m_startTime t < m_maxPollTime t
      then timers s' = timers s @ [(next_handle s, c, now s + timer_delay (m_pollInterval t))]
         \<and> trace s' = trace s @ [OnProgress c d]
      else timers s' = timers s
         \<and> trace s' = trace s @ [OnProgress c d,
              OnError c (MaxPollTimeReached (''model '' @ m_id t))])"
    using not_ready_decision[of s c t d u] by blast
next
  assume "0 \<le> m_pollInterval t \<and> m_pollInterval t \<le> 2147483647"
  then show "timer_delay (m_pollInterval t) = m_pollInterval t"
    by (simp add: timer_delay_in_range)
next
  show "timer_delay 3000000000 = 0" by (simp add: timer_delay_def)
next
  assume "three h \<and> 0 < I \<and> I \<le> 2147483647 \<and> 0 < M \<and> k * I < M \<and> M \<le> Suc k * I \<and>
      resolveMeshUrl d = Inr u \<and> \<not> truthy u"
  then show "\<exists>s. run (never_ready I M d (Suc k)) (init h t0) = Some s
         \<and> fetch_times 0 (trace s) = map (\<lambda>j. t0 + int (j * I)) [0..<Suc (Suc k)]
         \<and> timers s = [] \<and> fetches s = []
         \<and> last (trace s) = OnError 0 (MaxPollTimeReached ''model m'')"
    using never_ready_attempts[where h = h and I = I and M = M and k = k and d = d
        and u = u and ?t0.0 = t0] by blast
qed (simp_all add: exec)

theorem polling_stops_after_ceiling_witness:
  "timers (the (step (FetchSettles 0 (Inr no_mesh))
      (the (run (never_ready 5000 12000 no_mesh 1 @ [Advance 5000, TimerFires 2])
             (init browser 0))))) = [(3, 0, 15000)]
   \<and> (\<exists>s. run (never_ready 5000 12000 no_mesh 3) (init browser 0) = Some s
         \<and> fetch_times 0 (trace s) = [0, 5000, 10000, 15000]
         \<and> timers s = [] \<and> fetches s = []
         \<and> last (trace s) = OnError 0 (MaxPollTimeReached ''model m''))"
  using polling_stops_after_ceiling[of
      "the (run (never_ready 5000 12000 no_mesh 1 @ [Advance 5000, TimerFires 2])
             (init browser 0))" 0
      "\<lparr>m_id = ''m'', m_group = 0, m_placeholder = Some 1, m_poll = True,
        m_pollInterval = 5000, m_maxPollTime = 12000, m_startTime = 0\<rparr>"
      no_mesh JNull browser 5000 12000 2 0]
  by (simp add: exec)

section \<open>The promise of a world task\<close>

lemma build_result_total:
  assumes "v \<noteq> JUndefined" "v \<noteq> JNull"
  shows "\<exists>res. build_result wid v = Inr res \<and> raw res = v \<and> worldId res = wid"
proof -
  have m: "member v k = Inr (lookup (fields_of v) k)" for k
    by (rule member_lookup[OF assms])
  have o: "\<exists>x. js_or (path v [k]) (Inr y) = Inr x" for k y
    using m[of k] by (simp add: js_or_def)
  from o[of "''inputImages''"] obtain imgs where
    1: "js_or (path v [''inputImages'']) (Inr (JArr [])) = Inr imgs" by blast
  from o[of "''caption''"] obtain cap where
    2: "js_or (path v [''caption'']) (Inr JNull) = Inr cap" by blast
  from o[of "''displayName''"] obtain dn where
    3: "js_or (path v [''displayName'']) (Inr JNull) = Inr dn" by blast
  from o[of "''status''"] obtain st where
    4: "js_or (path v [''status'']) (Inr JNull) = Inr st" by blast
  show ?thesis
    unfolding build_result_def resolveSplatUrl_eq[OF assms] resolveAllSplatUrls_eq[OF assms]
      slot_present[OF m] 1 2 3 4
    by (simp add: bind_def)
qed

lemma frame_emit:
  "now (emit x s) = now s" "promises (emit x s) = promises s" "closures (emit x s) = closures s"
  "timers (emit x s) = timers s" "next_handle (emit x s) = next_handle s"
  by (simp_all add: emit_def)

lemma frame_schedule:
  "now (schedule k c d s) = now s" "promises (schedule k c d s) = promises s"
  "closures (schedule k c d s) = closures s"
  "timers (schedule k c d s) = timers s @ [(next_handle s, c, now s + timer_delay d)]"
  by (simp_all add: schedule_def setTimeout_def)

lemma promises_settle:
  "promises (settle c' q s) c =
     (if c' = c \<and> promises s c = Some Pending then Some q else promises s c)"
  by (simp add: settle_def split: option.splits promise.splits)

lemma frame_settle:
  "now (settle c q s) = now s" "closures (settle c q s) = closures s"
  "timers (settle c q s) = timers s" "next_handle (settle c q s) = next_handle s"
  by (simp_all add: settle_def split: option.splits promise.splits)

lemma promises_world_catch:
  "promises (world_catch c' w err s) c =
     (if c' = c \<and> promises s c = Some Pending
      then Some (promise_after w (now s) (Inl err)) else promises s c)"
  by (simp add: world_catch_def Let_def frame_emit frame_schedule promises_settle promise_after_def)

lemma promises_world_then:
  "promises (world_then c' w d s) c =
     (if c' = c \<and> promises s c = Some Pending
      then Some (promise_after w (now s) (build_result (w_id w) d)) else promises s c)"
proof (cases "build_result (w_id w) d")
  case (Inl err)
  then show ?thesis
    by (simp add: world_then_def Let_def promises_world_catch frame_emit)
next
  case (Inr res)
  then show ?thesis
    by (simp add: world_then_def Let_def frame_emit frame_schedule frame_cancel
        promises_settle promise_after_def)
qed

lemma promises_model:
  "promises (model_catch c' t err s) = promises s"
  "promises (loadGLB c' t url md s) = promises s"
  "promises (model_then c' t d s) = promises s"
  by (simp_all add: model_catch_def loadGLB_def model_then_def Let_def frame_emit frame_schedule
      emit_def split: sum.splits)

lemma promises_fetch_settled:
  "promises (fetch_settled c' r s) c =
     (if c' = c then
        (case closures s c of
           Some (WorldAttempt w) \<Rightarrow>
             (case promises s c of
                Some Pending \<Rightarrow> Some (promise_after w (now s) (outcome (w_id w) r))
              | x \<Rightarrow> x)
         | _ \<Rightarrow> promises s c)
      else promises s c)"
  by (simp add: fetch_settled_def promises_model promises_world_catch promises_world_then
      outcome_def split: option.splits closure.splits sum.splits promise.splits)

lemma promises_load_then: "promises (load_then c' t md scene s) = promises s"
  by (simp add: load_then_def Let_def promises_model frame_emit frame_cancel emit_def
      split: option.splits)

lemma promises_load_settled: "promises (load_settled c' md r s) c = promises s c"
  by (simp add: load_settled_def promises_model promises_load_then
      split: option.splits closure.splits sum.splits)

lemma promises_fetch_settled_dom:
  "promises (fetch_settled c' r s) c = Some p \<Longrightarrow> \<exists>q. promises s c = Some q"
  unfolding promises_fetch_settled
  by (cases "c' = c"; cases "closures s c"; cases "promises s c")
     (auto split: closure.splits promise.splits)

lemma step_promises_bound:
  assumes "\<forall>c p. promises s c = Some p \<longrightarrow> c < next_tid s" "step e s = Some s'"
  shows "\<forall>c p. promises s' c = Some p \<longrightarrow> c < next_tid s'"
proof (cases e)
  case (LoadModel i opts)
  show ?thesis
  proof (cases i opts s rule: loadModel_cases)
    case fresh
    from LoadModel assms(2) have "s' = snd (loadModel i opts s)" by simp
    then have "promises s' = promises s" "next_tid s' = Suc (next_tid s)"
      unfolding fresh(3) by (simp_all add: fetchModel_def emit_def)
    with assms(1) show ?thesis by (auto simp: less_Suc_eq)
  qed (use LoadModel assms in auto)
next
  case (LoadWorld i opts)
  show ?thesis
  proof (cases i opts s rule: loadWorld_cases)
    case fresh
    from LoadWorld assms(2) have "s' = snd (loadWorld i opts s)" by simp
    then have "promises s' = (promises s)(next_tid s \<mapsto> Pending)" "next_tid s' = Suc (next_tid s)"
      unfolding fresh(2) by (simp_all add: fetchWorld_def emit_def)
    with assms(1) show ?thesis by (auto simp: less_Suc_eq)
  qed (use LoadWorld assms in auto)
next
  case (FetchSettles c' r)
  with assms(2) have s': "s' = fetch_settled c' r (s\<lparr>fetches := remove1 c' (fetches s)\<rparr>)"
    by (auto split: if_splits)
  show ?thesis
  proof (intro allI impI)
    fix c p assume "promises s' c = Some p"
    from promises_fetch_settled_dom[OF this[unfolded s']] assms(1)
    show "c < next_tid s'" unfolding s' frame_fetch_settled by auto
  qed
next
  case (LoadSettles c' r)
  with assms(2) obtain l where
    s': "s' = load_settled c' (snd (snd l)) r (s\<lparr>loads := remove1 l (loads s)\<rparr>)"
    by (auto split: option.splits)
  show ?thesis unfolding s' frame_load_settled promises_load_settled using assms(1) by simp
qed (use assms in \<open>auto simp: frame_attempt frame_cancel split: option.splits if_splits\<close>)

lemma run_promises_bound:
  assumes "run es (init h t0) = Some s" "promises s c = Some p"
  shows "c < next_tid s"
proof -
  have "\<forall>c p. promises s c = Some p \<longrightarrow> c < next_tid s"
  proof (rule run_induct[OF assms(1), where
      P = "\<lambda>s. \<forall>c p. promises s c = Some p \<longrightarrow> c < next_tid s"])
    show "\<forall>c p. promises (init h t0) c = Some p \<longrightarrow> c < next_tid (init h t0)"
      by (simp add: init_def)
  qed (rule step_promises_bound)
  with assms(2) show ?thesis by blast
qed

lemma step_promise:
  assumes b: "c < next_tid s" and cl: "closures s c = Some (WorldAttempt w)"
    and p: "promises s c = Some p" and st: "step e s = Some s'"
  shows "promises s' c =
     Some (case e of
             FetchSettles c' r \<Rightarrow>
               if c' = c \<and> p = Pending
               then promise_after w (now s) (outcome (w_id w) r) else p
           | _ \<Rightarrow> p)"
proof (cases e)
  case (LoadModel i opts)
  show ?thesis
  proof (cases i opts s rule: loadModel_cases)
    case fresh
    from LoadModel st have "s' = snd (loadModel i opts s)" by simp
    then have "promises s' = promises s"
      unfolding fresh(3) by (simp add: fetchModel_def emit_def)
    with p LoadModel show ?thesis by simp
  qed (use LoadModel st p in auto)
next
  case (LoadWorld i opts)
  show ?thesis
  proof (cases i opts s rule: loadWorld_cases)
    case fresh
    from LoadWorld st have "s' = snd (loadWorld i opts s)" by simp
    then have "promises s' = (promises s)(next_tid s \<mapsto> Pending)"
      unfolding fresh(2) by (simp add: fetchWorld_def emit_def)
    with p b LoadWorld show ?thesis by simp
  qed (use LoadWorld st p in auto)
next
  case (FetchSettles c' r)
  with st have s': "s' = fetch_settled c' r (s\<lparr>fetches := remove1 c' (fetches s)\<rparr>)"
    by (auto split: if_splits)
  show ?thesis
    unfolding s' promises_fetch_settled FetchSettles using cl p
    by (cases p) simp_all
next
  case (LoadSettles c' r)
  with st obtain l where
    s': "s' = load_settled c' (snd (snd l)) r (s\<lparr>loads := remove1 l (loads s)\<rparr>)"
    by (auto split: option.splits)
  show ?thesis unfolding s' promises_load_settled LoadSettles using p by simp
qed (use assms in \<open>auto simp: frame_attempt frame_cancel split: option.splits if_splits\<close>)

lemma keeps_polling:
  assumes "closures s c = Some (WorldAttempt w)"
    and "step (FetchSettles c (Inr d)) s = Some s'"
    and "build_result (w_id w) d = Inr res"
    and "\<not> truthy (splatUrl res)" "\<not> truthy (panoramaUrl res)"
    and "w_poll w" "now s - w_startTime w < w_maxPollTime w"
  shows "timers s' = timers s @ [(next_handle s, c, now s + timer_delay (w_pollInterval w))]"
proof -
  from assms(2) have s': "s' = fetch_settled c (Inr d) (s\<lparr>fetches := remove1 c (fetches s)\<rparr>)"
    by (auto split: if_splits)
  show ?thesis unfolding s' using assms(1,3-)
    by (simp add: fetch_settled_def world_then_def Let_def frame_emit frame_schedule frame_settle)
qed

text \<open>
  Claim C6, as stated: the promise of \<^verbatim>\<open>loadWorld\<close> is rejected only when the very first
  fetch attempt fails and polling is disabled. With polling enabled, a first attempt
  that fails at time 0 is retried; the second attempt fails at 5000, past the ceiling of
  4000, and the promise is rejected.
\<close>

theorem rejected_with_polling_enabled:
  "promises (the (run world_fails_twice (init browser 0))) 0
     = Some (Rejected (External ''HTTP 503''))
   \<and> closures (the (run world_fails_twice (init browser 0))) 0
     = Some (WorldAttempt \<lparr>w_id = ''w'', w_poll = True, w_pollInterval = 5000,
                            w_maxPollTime = 4000, w_startTime = 0\<rparr>)
   \<and> fetch_times 0 (trace (the (run world_fails_twice (init browser 0)))) = [0, 5000]"
  by (simp add: exec)

text \<open>
  Claim C6, amended: a pending promise of \<^verbatim>\<open>loadWorld\<close> changes only when a fetch of its
  closure settles. It is resolved by the first attempt that delivers a result, whether
  the world is ready or not, with the result built from that descriptor (every
  descriptor object delivers one), and the task keeps polling while the world is not
  ready and the budget allows. It stays pending when an attempt fails and a retry is
  scheduled, and it is rejected exactly when an attempt fails with no retry: polling
  disabled, or the elapsed time not below the ceiling. A settled promise never changes.
\<close>

theorem world_promise_settlement:
  assumes "run es (init h t0) = Some s"
    and "closures s c = Some (WorldAttempt w)"
    and "promises s c = Some p"
    and "step e s = Some s'"
  shows "promises s' c =
           Some (case e of
                   FetchSettles c' r \<Rightarrow>
                     if c' = c \<and> p = Pending
                     then promise_after w (now s) (outcome (w_id w) r) else p
                 | _ \<Rightarrow> p)
       \<and> (\<exists>res. outcome (w_id w) (Inr (JObj fs)) = Inr res \<and> raw res = JObj fs)
       \<and> (e = FetchSettles c (Inr d) \<and> outcome (w_id w) (Inr d) = Inr res \<and>
            \<not> truthy (splatUrl res) \<and> \<not> truthy (panoramaUrl res) \<and>
            w_poll w \<and> now s - w_startTime w < w_maxPollTime w \<longrightarrow>
          timers s' = timers s @ [(next_handle s, c, now s + timer_delay (w_pollInterval w))])"
proof (intro conjI impI)
  from run_promises_bound[OF assms(1,3)] have "c < next_tid s" .
  from step_promise[OF this assms(2,3,4)]
  show "promises s' c =
           Some (case e of
                   FetchSettles c' r \<Rightarrow>
                     if c' = c \<and> p = Pending
                     then promise_after w (now s) (outcome (w_id w) r) else p
                 | _ \<Rightarrow> p)" .
  from build_result_total[of "JObj fs" "w_id w"]
  show "\<exists>res. outcome (w_id w) (Inr (JObj fs)) = Inr res \<and> raw res = JObj fs"
    by (auto simp: outcome_def)
  assume a: "e = FetchSettles c (Inr d) \<and> outcome (w_id w) (Inr d) = Inr res \<and>
            \<not> truthy (splatUrl res) \<and> \<not> truthy (panoramaUrl res) \<and>
            w_poll w \<and> now s - w_startTime w < w_maxPollTime w"
  with assms(4) have "step (FetchSettles c (Inr d)) s = Some s'" by simp
  from keeps_polling[OF assms(2) this] a
  show "timers s' = timers s @ [(next_handle s, c, now s + timer_delay (w_pollInterval w))]"
    by (simp add: outcome_def)
qed

theorem world_promise_settlement_witness:
  "promises (the (step (FetchSettles 0 (Inr no_mesh))
       (the (run [LoadWorld ''w'' defaults] (init browser 0))))) 0
     = Some (Resolved \<lparr>worldId = ''w'', splatUrl = JNull,
          splats = \<lparr>lowRes = JNull, mediumRes = JNull, highRes = JNull\<rparr>,
          panoramaUrl = JNull, thumbnailUrl = JNull, colliderMeshUrl = JNull,
          inputImages = JArr [], caption = JNull, displayName = JNull,
          status = JStr ''GENERATING'', raw = no_mesh\<rparr>)
   \<and> timers (the (step (FetchSettles 0 (Inr no_mesh))
       (the (run [LoadWorld ''w'' defaults] (init browser 0))))) = [(1, 0, 5000)]"
  using world_promise_settlement[of "[LoadWorld ''w'' defaults]" browser 0
      "the (run [LoadWorld ''w'' defaults] (init browser 0))" 0
      "\<lparr>w_id = ''w'', w_poll = True, w_pollInterval = 5000,
        w_maxPollTime = 300000, w_startTime = 0\<rparr>"
      Pending "FetchSettles 0 (Inr no_mesh)"
      "the (step (FetchSettles 0 (Inr no_mesh))
         (the (run [LoadWorld ''w'' defaults] (init browser 0))))"
      "[]" no_mesh
      "\<lparr>worldId = ''w'', splatUrl = JNull,
          splats = \<lparr>lowRes = JNull, mediumRes = JNull, highRes = JNull\<rparr>,
          panoramaUrl = JNull, thumbnailUrl = JNull, colliderMeshUrl = JNull,
          inputImages = JArr [], caption = JNull, displayName = JNull,
          status = JStr ''GENERATING'', raw = no_mesh\<rparr>"]
  by (simp add: exec)

section \<open>The callbacks and fetches of a closure\<close>

lemma swaps_append: "swaps c (xs @ ys) = swaps c xs @ swaps c ys"
  by (induction c xs rule: swaps.induct) auto

lemma trace_model_catch:
  "trace (model_catch c t err s) = trace s @ [OnError c err]"
  by (simp add: model_catch_def Let_def emit_def schedule_def setTimeout_def)

lemma trace_loadGLB:
  "\<exists>x. trace (loadGLB c t url md s) = trace s @ [x] \<and> fetch_times c' [x] = [] \<and> swaps c' [x] = []"
  by (simp add: loadGLB_def trace_model_catch emit_def)

lemma trace_model_then:
  "\<exists>xs. trace (model_then c t d s) = trace s @ xs \<and> fetch_times c' xs = [] \<and> swaps c' xs = []"
proof (cases "resolveMeshUrl d")
  case (Inl err)
  then have "trace (model_then c t d s) = trace s @ [OnProgress c d, OnError c err]"
    by (simp add: model_then_def Let_def trace_model_catch emit_def)
  then show ?thesis by simp
next
  case (Inr u)
  let ?s1 = "emit (OnProgress c d) s"
  from trace_loadGLB[of c t u d ?s1 c'] obtain x where
    x: "trace (loadGLB c t u d ?s1) = trace ?s1 @ [x]" "fetch_times c' [x] = []" "swaps c' [x] = []"
    by blast
  have "trace (model_then c t d s) = trace s @ [OnProgress c d]
      \<or> trace (model_then c t d s) = trace s @ [OnProgress c d, x]
      \<or> (\<exists>e. trace (model_then c t d s) = trace s @ [OnProgress c d, OnError c e])"
    using Inr x(1) by (simp add: model_then_def Let_def emit_def schedule_def setTimeout_def)
  with x(2,3) show ?thesis by auto
qed

lemma trace_settle [simp]: "trace (settle c p s) = trace s"
  by (simp add: settle_def split: option.splits promise.splits)

lemma trace_schedule [simp]: "trace (schedule k c d s) = trace s"
  by (simp add: schedule_def setTimeout_def)

lemma trace_emit [simp]: "trace (emit x s) = trace s @ [x]"
  by (simp add: emit_def)

lemma trace_world_catch:
  "trace (world_catch c w err s) = trace s @ [OnError c err]"
  by (simp add: world_catch_def Let_def)

lemma trace_world_then:
  "\<exists>xs. trace (world_then c w d s) = trace s @ xs \<and> fetch_times c' xs = [] \<and> swaps c' xs = []"
  by (cases "build_result (w_id w) d")
     (simp_all add: world_then_def Let_def trace_world_catch frame_cancel)

lemma quiet_fetch_settled:
  "fetch_times c (trace (fetch_settled c' r s)) = fetch_times c (trace s)"
  "swaps c (trace (fetch_settled c' r s)) = swaps c (trace s)"
proof -
  have "\<exists>xs. trace (fetch_settled c' r s) = trace s @ xs \<and> fetch_times c xs = [] \<and> swaps c xs = []"
    using trace_model_then[of c' _ _ s c] trace_world_then[of c' _ _ s c]
    by (auto simp: fetch_settled_def trace_model_catch trace_world_catch
        split: option.splits closure.splits sum.splits)
  then show "fetch_times c (trace (fetch_settled c' r s)) = fetch_times c (trace s)"
    "swaps c (trace (fetch_settled c' r s)) = swaps c (trace s)"
    by (auto simp: fetch_times_append swaps_append)
qed

lemma quiet_attempt:
  "swaps c (trace (attempt c' s)) = swaps c (trace s)"
  "c' \<noteq> c \<Longrightarrow> fetch_times c (trace (attempt c' s)) = fetch_times c (trace s)"
  by (simp_all add: attempt_def fetchModel_def fetchWorld_def swaps_append fetch_times_append
      split: option.splits closure.splits)

text \<open>The swap itself, when the cache entry of the key exists.\<close>

lemma load_then_swap:
  assumes "cache s (''model:'' @ m_id t) = Some en"
  shows "parent (load_then c t md scene s) =
           (case m_placeholder t of
              None \<Rightarrow> parent s
            | Some p \<Rightarrow> if parent s p = Some (m_group t) then (parent s)(p := None) else parent s)
           (scene \<mapsto> m_group t)"
    and "trace (load_then c t md scene s) =
           trace s @ (case m_placeholder t of
                        None \<Rightarrow> []
                      | Some p \<Rightarrow> if parent s p = Some (m_group t) then [Dispose p] else [])
                   @ [OnSwap c scene md]"
    and "cache (load_then c t md scene s) =
           (cache s)(''model:'' @ m_id t \<mapsto> en\<lparr>ce_loaded := True\<rparr>)"
    and "map_of (activePolls (load_then c t md scene s)) (m_id t) = None"
    and "buuModelData (load_then c t md scene s) (m_group t) = Some md"
    and "pending_of (load_then c t md scene s) c' \<le> pending_of s c'"
proof -
  define s1 where "s1 = (case m_placeholder t of None \<Rightarrow> s
     | Some p \<Rightarrow> if parent s p = Some (m_group t)
                then emit (Dispose p) (s\<lparr>parent := (parent s)(p := None)\<rparr>) else s)"
  define s2 where "s2 = s1\<lparr>parent := (parent s1)(scene \<mapsto> m_group t),
                  buuModelData := (buuModelData s1)(m_group t \<mapsto> md)\<rparr>"
  define s3 where "s3 = s2\<lparr>cache := (cache s2)(''model:'' @ m_id t \<mapsto> en\<lparr>ce_loaded := True\<rparr>)\<rparr>"
  have c2: "cache s2 = cache s"
    by (simp add: s2_def s1_def emit_def split: option.splits)
  have eq0: "load_then c t md scene s = (case cache s2 (''model:'' @ m_id t) of
           None \<Rightarrow> model_catch c t TypeError s2
         | Some e \<Rightarrow> emit (OnSwap c scene md) (cancelPoll (m_id t)
                 (s2\<lparr>cache := (cache s2)(''model:'' @ m_id t \<mapsto> e\<lparr>ce_loaded := True\<rparr>)\<rparr>)))"
    by (simp only: load_then_def s1_def s2_def Let_def)
  have eq: "load_then c t md scene s = emit (OnSwap c scene md) (cancelPoll (m_id t) s3)"
    unfolding eq0 s3_def c2 using assms by simp
  have p2: "pending_of s3 c' = pending_of s c'"
    by (simp add: s3_def s2_def s1_def pending_of_def emit_def split: option.splits)
  show "parent (load_then c t md scene s) =
           (case m_placeholder t of
              None \<Rightarrow> parent s
            | Some p \<Rightarrow> if parent s p = Some (m_group t) then (parent s)(p := None) else parent s)
           (scene \<mapsto> m_group t)"
    unfolding eq by (simp add: emit_def cancelPoll_def clearTimeout_def s3_def s2_def s1_def
        split: option.splits)
  show "trace (load_then c t md scene s) =
           trace s @ (case m_placeholder t of
                        None \<Rightarrow> []
                      | Some p \<Rightarrow> if parent s p = Some (m_group t) then [Dispose p] else [])
                   @ [OnSwap c scene md]"
    unfolding eq by (simp add: frame_cancel s3_def s2_def s1_def split: option.splits)
  show "cache (load_then c t md scene s) =
           (cache s)(''model:'' @ m_id t \<mapsto> en\<lparr>ce_loaded := True\<rparr>)"
    unfolding eq by (simp add: emit_def frame_cancel s3_def c2)
  show "map_of (activePolls (load_then c t md scene s)) (m_id t) = None"
    unfolding eq by (simp add: emit_def cancelPoll_def clearTimeout_def delete_conv'
        split: option.splits)
  show "buuModelData (load_then c t md scene s) (m_group t) = Some md"
    unfolding eq by (simp add: emit_def cancelPoll_def clearTimeout_def s3_def s2_def
        split: option.splits)
  show "pending_of (load_then c t md scene s) c' \<le> pending_of s c'"
    unfolding eq using pending_cancelPoll[of "m_id t" s3 c'] p2 by simp
qed

lemma load_then_thrown:
  assumes "cache s (''model:'' @ m_id t) = None"
  shows "swaps c' (trace (load_then c t md scene s)) = swaps c' (trace s)"
    and "fetch_times c' (trace (load_then c t md scene s)) = fetch_times c' (trace s)"
proof -
  define s1 where "s1 = (case m_placeholder t of None \<Rightarrow> s
     | Some p \<Rightarrow> if parent s p = Some (m_group t)
                then emit (Dispose p) (s\<lparr>parent := (parent s)(p := None)\<rparr>) else s)"
  define s2 where "s2 = s1\<lparr>parent := (parent s1)(scene \<mapsto> m_group t),
                  buuModelData := (buuModelData s1)(m_group t \<mapsto> md)\<rparr>"
  have c2: "cache s2 = cache s"
    by (simp add: s2_def s1_def emit_def split: option.splits)
  have eq0: "load_then c t md scene s = (case cache s2 (''model:'' @ m_id t) of
           None \<Rightarrow> model_catch c t TypeError s2
         | Some e \<Rightarrow> emit (OnSwap c scene md) (cancelPoll (m_id t)
                 (s2\<lparr>cache := (cache s2)(''model:'' @ m_id t \<mapsto> e\<lparr>ce_loaded := True\<rparr>)\<rparr>)))"
    by (simp only: load_then_def s1_def s2_def Let_def)
  have eq: "load_then c t md scene s = model_catch c t TypeError s2"
    unfolding eq0 c2 using assms by simp
  have t2: "swaps c' (trace s2) = swaps c' (trace s)" "fetch_times c' (trace s2) = fetch_times c' (trace s)"
    by (simp_all add: s2_def s1_def swaps_append fetch_times_append split: option.splits)
  show "swaps c' (trace (load_then c t md scene s)) = swaps c' (trace s)"
    and "fetch_times c' (trace (load_then c t md scene s)) = fetch_times c' (trace s)"
    unfolding eq by (simp_all add: trace_model_catch swaps_append fetch_times_append t2)
qed

lemma quiet_load_settled:
  "fetch_times c (trace (load_settled c' md r s)) = fetch_times c (trace s)"
proof (cases "closures s c'")
  case None
  then show ?thesis by (simp add: load_settled_def)
next
  case (Some cl)
  show ?thesis
  proof (cases cl)
    case (WorldAttempt w)
    with Some show ?thesis by (simp add: load_settled_def)
  next
    case (ModelAttempt t)
    show ?thesis
    proof (cases r)
      case (Inl err)
      with Some ModelAttempt show ?thesis
        by (simp add: load_settled_def trace_model_catch fetch_times_append)
    next
      case (Inr scene)
      show ?thesis
      proof (cases "cache s (''model:'' @ m_id t)")
        case None
        with Some ModelAttempt Inr show ?thesis
          by (simp add: load_settled_def load_then_thrown)
      next
        case (Some en)
        with \<open>closures s c' = Some cl\<close> ModelAttempt Inr show ?thesis
          by (simp add: load_settled_def load_then_swap(2)[OF Some] fetch_times_append
              split: option.splits)
      qed
    qed
  qed
qed

lemma swaps_load_settled:
  "swaps c (trace (load_settled c' md r s)) = swaps c (trace s)
   \<or> (c' = c \<and> pending_of (load_settled c' md r s) c \<le> pending_of s c)"
proof (cases "closures s c'")
  case None
  then show ?thesis by (simp add: load_settled_def)
next
  case (Some cl)
  show ?thesis
  proof (cases cl)
    case (WorldAttempt w)
    with Some show ?thesis by (simp add: load_settled_def)
  next
    case (ModelAttempt t)
    show ?thesis
    proof (cases r)
      case (Inl err)
      with Some ModelAttempt show ?thesis
        by (simp add: load_settled_def trace_model_catch swaps_append)
    next
      case (Inr scene)
      show ?thesis
      proof (cases "cache s (''model:'' @ m_id t)")
        case None
        with Some ModelAttempt Inr show ?thesis
          by (simp add: load_settled_def load_then_thrown)
      next
        case (Some en)
        with \<open>closures s c' = Some cl\<close> ModelAttempt Inr show ?thesis
          using load_then_swap(6)[OF Some, of c' md scene c]
          by (cases "c' = c")
             (simp_all add: load_settled_def load_then_swap(2)[OF Some] swaps_append
                split: option.splits)
      qed
    qed
  qed
qed

section \<open>A closure with nothing pending stays silent\<close>

lemma no_pending:
  assumes "pending_of s c = 0"
  shows "c \<notin> set (fetches s)" "\<And>l. l \<in> set (loads s) \<Longrightarrow> fst l \<noteq> c"
    "\<And>t. t \<in> set (timers s) \<Longrightarrow> fst (snd t) \<noteq> c"
proof -
  from assms have 1: "count_list (fetches s) c = 0" "count_list (map fst (loads s)) c = 0"
    "count_list (map (\<lambda>t. fst (snd t)) (timers s)) c = 0"
    by (simp_all add: pending_of_def)
  from 1(1) show "c \<notin> set (fetches s)" by (simp add: count_list_0_iff)
  from 1(2) have "c \<notin> fst ` set (loads s)" by (simp add: count_list_0_iff)
  then show "\<And>l. l \<in> set (loads s) \<Longrightarrow> fst l \<noteq> c" by auto
  from 1(3) have "c \<notin> (\<lambda>t. fst (snd t)) ` set (timers s)" by (simp add: count_list_0_iff)
  then show "\<And>t. t \<in> set (timers s) \<Longrightarrow> fst (snd t) \<noteq> c" by auto
qed

lemma step_swaps:
  assumes st: "step e s = Some s'"
  shows "swaps c (trace s') = swaps c (trace s) \<or> pending_of s' c < pending_of s c"
proof (cases e)
  case (LoadModel i opts)
  show ?thesis
  proof (cases i opts s rule: loadModel_cases)
    case fresh
    from LoadModel st have "s' = snd (loadModel i opts s)" by simp
    then have "trace s' = trace s @ [FetchModel (next_tid s) i (now s)]"
      unfolding fresh(3) by (simp add: fetchModel_def emit_def)
    then show ?thesis by (simp add: swaps_append)
  qed (use LoadModel st in auto)
next
  case (LoadWorld i opts)
  show ?thesis
  proof (cases i opts s rule: loadWorld_cases)
    case fresh
    from LoadWorld st have "s' = snd (loadWorld i opts s)" by simp
    then have "trace s' = trace s @ [FetchWorld (next_tid s) i (now s)]"
      unfolding fresh(2) by (simp add: fetchWorld_def emit_def)
    then show ?thesis by (simp add: swaps_append)
  qed (use LoadWorld st in auto)
next
  case (FetchSettles c' r)
  with st have "s' = fetch_settled c' r (s\<lparr>fetches := remove1 c' (fetches s)\<rparr>)"
    by (auto split: if_splits)
  then show ?thesis by (simp add: quiet_fetch_settled)
next
  case (LoadSettles c' r)
  with st obtain l where f: "find (\<lambda>l. fst l = c') (loads s) = Some l"
    and s': "s' = load_settled c' (snd (snd l)) r (s\<lparr>loads := remove1 l (loads s)\<rparr>)"
    by (auto split: option.splits)
  from find_SomeD[OF f] have l: "l \<in> set (loads s)" "fst l = c'" by auto
  from swaps_load_settled[of c c' "snd (snd l)" r "s\<lparr>loads := remove1 l (loads s)\<rparr>"]
    pending_remove_load[OF l(1), of c] l(2)
  show ?thesis unfolding s' by (auto split: if_splits)
next
  case (TimerFires h)
  with st obtain t where
    s': "s' = attempt (fst (snd t)) (s\<lparr>timers := remove1 t (timers s)\<rparr>)"
    by (auto split: option.splits if_splits)
  show ?thesis unfolding s' by (simp add: quiet_attempt)
qed (use st in \<open>auto simp: frame_cancel\<close>)

lemma step_quiet:
  assumes st: "step e s = Some s'" and p: "pending_of s c = 0" and b: "c < next_tid s"
  shows "fetch_times c (trace s') = fetch_times c (trace s)"
    and "swaps c (trace s') = swaps c (trace s)"
    and "pending_of s' c = 0" and "c < next_tid s'"
proof -
  from step_pending[OF st, of c] p b show "pending_of s' c = 0" by simp
  from step_next_tid[OF st] b show "c < next_tid s'" by simp
  from step_swaps[OF st, of c] p show "swaps c (trace s') = swaps c (trace s)" by simp
  show "fetch_times c (trace s') = fetch_times c (trace s)"
  proof (cases e)
    case (LoadModel i opts)
    show ?thesis
    proof (cases i opts s rule: loadModel_cases)
      case fresh
      from LoadModel st have "s' = snd (loadModel i opts s)" by simp
      then have "trace s' = trace s @ [FetchModel (next_tid s) i (now s)]"
        unfolding fresh(3) by (simp add: fetchModel_def emit_def)
      with b show ?thesis by (simp add: fetch_times_append)
    qed (use LoadModel st in auto)
  next
    case (LoadWorld i opts)
    show ?thesis
    proof (cases i opts s rule: loadWorld_cases)
      case fresh
      from LoadWorld st have "s' = snd (loadWorld i opts s)" by simp
      then have "trace s' = trace s @ [FetchWorld (next_tid s) i (now s)]"
        unfolding fresh(2) by (simp add: fetchWorld_def emit_def)
      with b show ?thesis by (simp add: fetch_times_append)
    qed (use LoadWorld st in auto)
  next
    case (FetchSettles c' r)
    with st have "s' = fetch_settled c' r (s\<lparr>fetches := remove1 c' (fetches s)\<rparr>)"
      by (auto split: if_splits)
    then show ?thesis by (simp add: quiet_fetch_settled)
  next
    case (LoadSettles c' r)
    with st obtain l where
      "s' = load_settled c' (snd (snd l)) r (s\<lparr>loads := remove1 l (loads s)\<rparr>)"
      by (auto split: option.splits)
    then show ?thesis by (simp add: quiet_load_settled)
  next
    case (TimerFires h)
    with st obtain t where f: "find (\<lambda>t. fst t = h) (timers s) = Some t"
      and s': "s' = attempt (fst (snd t)) (s\<lparr>timers := remove1 t (timers s)\<rparr>)"
      by (auto split: option.splits if_splits)
    from find_SomeD[OF f] no_pending(3)[OF p] have "fst (snd t) \<noteq> c" by blast
    then show ?thesis unfolding s' by (simp add: quiet_attempt)
  qed (use st in \<open>auto simp: frame_cancel\<close>)
qed

lemma run_quiet:
  assumes "run es s = Some s'" "pending_of s c = 0" "c < next_tid s"
  shows "fetch_times c (trace s') = fetch_times c (trace s)
       \<and> swaps c (trace s') = swaps c (trace s) \<and> pending_of s' c = 0"
  using assms
proof (induction es arbitrary: s)
  case Nil
  then show ?case by simp
next
  case (Cons e es)
  then obtain s1 where s1: "step e s = Some s1" "run es s1 = Some s'"
    by (auto split: option.splits)
  from step_quiet[OF s1(1) Cons.prems(2,3)] Cons.IH[OF s1(2)]
  show ?case by simp
qed

section \<open>Cancellation\<close>

lemma count_filter_out:
  assumes "x \<in> set xs" "\<not> P x" "count_list (map f xs) (f x) \<le> 1"
  shows "count_list (map f (filter P xs)) (f x) = 0"
  using assms
proof (induction xs)
  case Nil
  then show ?case by simp
next
  case (Cons y ys)
  show ?case
  proof (cases "f y = f x")
    case True
    with Cons.prems(3) have z: "count_list (map f ys) (f x) = 0" by simp
    have "count_list (map f (filter P ys)) (f x) \<le> count_list (map f ys) (f x)"
      by (rule count_filter_le)
    with z have z': "count_list (map f (filter P ys)) (f x) = 0" by simp
    from z have "f x \<notin> f ` set ys" by (simp add: count_list_0_iff)
    with Cons.prems(1) have "y = x" by auto
    with Cons.prems(2) z' show ?thesis by simp
  next
    case False
    with Cons.prems have "x \<in> set ys" "count_list (map f ys) (f x) \<le> 1" by auto
    from Cons.IH[OF this(1) Cons.prems(2) this(2)] False show ?thesis by simp
  qed
qed

text \<open>\<^verbatim>\<open>cancelPoll\<close> on a task that is waiting for its timer, the timer being the one the
  registry holds: the entry is removed, the task has nothing pending any more and
  never issues another fetch.\<close>

lemma cancelPoll_stops_waiting_task:
  assumes reach: "run es (init h t0) = Some s"
    and reg: "map_of (activePolls s) key = Some th"
    and tm: "(th, c, due) \<in> set (timers s)"
    and later: "run (CancelPoll key # es') s = Some s'"
  shows "map_of (activePolls (cancelPoll key s)) key = None"
    and "pending_of s' c = 0"
    and "fetch_times c (trace s') = fetch_times c (trace s)"
proof -
  let ?s1 = "cancelPoll key s"
  from reg show "map_of (activePolls ?s1) key = None"
    by (simp add: cancelPoll_def delete_conv')
  from run_bounded[OF reach, of c] have b: "pending_of s c \<le> 1"
    by (auto split: if_splits)
  from tm have "c \<in> set (map (\<lambda>t. fst (snd t)) (timers s))" by force
  then have "count_list (map (\<lambda>t. fst (snd t)) (timers s)) c \<noteq> 0"
    by (simp only: count_list_0_iff not_not)
  with b have f0: "count_list (fetches s) c = 0" and l0: "count_list (map fst (loads s)) c = 0"
    and t1: "count_list (map (\<lambda>t. fst (snd t)) (timers s)) c \<le> 1"
    by (simp_all add: pending_of_def)
  from count_filter_out[of "(th, c, due)" "timers s" "\<lambda>t. fst t \<noteq> th" "\<lambda>t. fst (snd t)"] tm t1
  have "count_list (map (\<lambda>t. fst (snd t)) (filter (\<lambda>t. fst t \<noteq> th) (timers s))) c = 0"
    by simp
  with f0 l0 reg have p: "pending_of ?s1 c = 0"
    by (simp add: pending_of_def cancelPoll_def clearTimeout_def)
  from run_bounded[OF reach, of c] \<open>count_list (map (\<lambda>t. fst (snd t)) (timers s)) c \<noteq> 0\<close>
  have "c < next_tid s" by (auto simp: pending_of_def split: if_splits)
  then have n: "c < next_tid ?s1" by (simp add: frame_cancel)
  from later have "run es' ?s1 = Some s'" by simp
  from run_quiet[OF this p n]
  show "pending_of s' c = 0" "fetch_times c (trace s') = fetch_times c (trace s)"
    by (simp_all add: frame_cancel)
qed

text \<open>
  Claim C3: after \<^verbatim>\<open>cancelPoll\<close> no further attempt fires for the key, also when an
  attempt was already dispatched and completes after the cancellation. The handlers do
  not consult the registry: \<^verbatim>\<open>cancelPoll\<close> called while the first fetch is outstanding
  leaves the registry empty, and when the fetch then delivers a descriptor without a
  mesh the handler registers a new timer under the key; the timer fires and a second
  fetch is issued.
\<close>

theorem cancel_during_fetch_keeps_polling:
  "activePolls (the (run [LoadModel ''m'' defaults, CancelPoll ''m''] (init browser 0))) = []
   \<and> activePolls (the (run cancelled_in_flight (init browser 0))) = [(''m'', 1)]
   \<and> timers (the (run cancelled_in_flight (init browser 0))) = [(1, 0, 5000)]
   \<and> fetch_times 0 (trace (the (run (cancelled_in_flight @ [Advance 5000, TimerFires 1])
        (init browser 0)))) = [0, 5000]"
  by (simp add: exec)

section \<open>The swap\<close>

text \<open>A closure whose swap callback has run has nothing pending.\<close>

lemma step_swapped:
  assumes inv: "(\<forall>c. pending_of s c \<le> (if c < next_tid s then 1 else 0))
              \<and> (\<forall>c. swaps c (trace s) \<noteq> [] \<longrightarrow> pending_of s c = 0 \<and> c < next_tid s)"
    and st: "step e s = Some s'"
  shows "(\<forall>c. pending_of s' c \<le> (if c < next_tid s' then 1 else 0))
       \<and> (\<forall>c. swaps c (trace s') \<noteq> [] \<longrightarrow> pending_of s' c = 0 \<and> c < next_tid s')"
proof (intro conjI allI impI)
  from inv have bound: "\<forall>c. pending_of s c \<le> (if c < next_tid s then 1 else 0)" by blast
  from step_bounded[OF bound st]
  show "pending_of s' c \<le> (if c < next_tid s' then 1 else 0)" for c by blast
  fix c assume sw: "swaps c (trace s') \<noteq> []"
  from step_swaps[OF st, of c]
  have "pending_of s' c = 0 \<and> c < next_tid s'"
  proof
    assume "swaps c (trace s') = swaps c (trace s)"
    with sw inv have "pending_of s c = 0" "c < next_tid s" by simp_all
    from step_quiet(3,4)[OF st this] show ?thesis by simp
  next
    assume less: "pending_of s' c < pending_of s c"
    with bound[rule_format, of c] have "pending_of s' c = 0" "c < next_tid s"
      by (auto split: if_splits)
    with step_next_tid[OF st] show ?thesis by simp
  qed
  then show "pending_of s' c = 0" "c < next_tid s'" by simp_all
qed

lemma run_swapped:
  assumes "run es (init h t0) = Some s" "swaps c (trace s) \<noteq> []"
  shows "pending_of s c = 0"
proof -
  have "(\<forall>c. pending_of s c \<le> (if c < next_tid s then 1 else 0))
      \<and> (\<forall>c. swaps c (trace s) \<noteq> [] \<longrightarrow> pending_of s c = 0 \<and> c < next_tid s)"
  proof (rule run_induct[OF assms(1), where
      P = "\<lambda>s. (\<forall>c. pending_of s c \<le> (if c < next_tid s then 1 else 0))
              \<and> (\<forall>c. swaps c (trace s) \<noteq> [] \<longrightarrow> pending_of s c = 0 \<and> c < next_tid s)"])
    show "(\<forall>c. pending_of (init h t0) c \<le> (if c < next_tid (init h t0) then 1 else 0))
        \<and> (\<forall>c. swaps c (trace (init h t0)) \<noteq> [] \<longrightarrow>
              pending_of (init h t0) c = 0 \<and> c < next_tid (init h t0))"
      by (simp add: init_def pending_of_def)
  qed (rule step_swapped)
  with assms(2) show ?thesis by blast
qed

text \<open>
  Claim C8, as stated: on every successful load the placeholder's resources are
  released, the cache entry is marked, the swap callback is invoked once and no further
  attempt occurs. When the application has detached the placeholder, the swap happens
  but nothing is disposed. When the application has cleared the cache while the mesh
  was loading, marking the missing entry throws: the mesh is attached, the swap callback
  is not invoked, the error callback receives the TypeError and a retry is scheduled.
\<close>

theorem swap_skips_disposal_or_throws:
  "trace (the (run removed_then_loaded (init browser 0))) =
     [FetchModel 0 ''m'' 0, OnProgress 0 with_mesh, LoadGLB 0 (JStr ''t.glb''),
      OnSwap 0 7 with_mesh]
   \<and> trace (the (run cleared_then_loaded (init browser 0))) =
     [FetchModel 0 ''m'' 0, OnProgress 0 with_mesh, LoadGLB 0 (JStr ''t.glb''),
      Dispose 1, OnError 0 TypeError]
   \<and> timers (the (run cleared_then_loaded (init browser 0))) = [(1, 0, 5000)]
   \<and> parent (the (run cleared_then_loaded (init browser 0))) 7 = Some 0
   \<and> cache (the (run cleared_then_loaded (init browser 0))) ''model:m'' = None"
  by (simp add: exec)

text \<open>
  Claim C8, amended: on a successful load for a model whose cache entry exists, the
  placeholder is detached and its resources released if and only if it is still
  attached to the container, the mesh is attached to the container, the cache entry is
  marked loaded, the registry entry of the id is removed and the swap callback is
  invoked with the mesh and the descriptor. Over the whole life of the closure that is
  its only swap callback, and the closure issues no further fetch and has nothing
  pending, whatever happens later.
\<close>

theorem swap_on_successful_load:
  assumes reach: "run es (init h t0) = Some s"
    and cl: "closures s c = Some (ModelAttempt t)"
    and ld: "find (\<lambda>l. fst l = c) (loads s) = Some (c, url, md)"
    and ce: "cache s (''model:'' @ m_id t) = Some en"
    and later: "run (LoadSettles c (Inr scene) # es') s = Some s''"
  shows "\<exists>s'. step (LoadSettles c (Inr scene)) s = Some s' \<and> run es' s' = Some s''
     \<and> parent s' =
         (case m_placeholder t of
            None \<Rightarrow> parent s
          | Some p \<Rightarrow> if parent s p = Some (m_group t) then (parent s)(p := None) else parent s)
         (scene \<mapsto> m_group t)
     \<and> trace s' =
         trace s @ (case m_placeholder t of
                      None \<Rightarrow> []
                    | Some p \<Rightarrow> if parent s p = Some (m_group t) then [Dispose p] else [])
                 @ [OnSwap c scene md]
     \<and> cache s' = (cache s)(''model:'' @ m_id t \<mapsto> en\<lparr>ce_loaded := True\<rparr>)
     \<and> map_of (activePolls s') (m_id t) = None
     \<and> swaps c (trace s'') = [(scene, md)]
     \<and> fetch_times c (trace s'') = fetch_times c (trace s)
     \<and> pending_of s'' c = 0"
proof -
  let ?s0 = "s\<lparr>loads := remove1 (c, url, md) (loads s)\<rparr>"
  let ?s' = "load_then c t md scene ?s0"
  from ld cl have st: "step (LoadSettles c (Inr scene)) s = Some ?s'"
    by (simp add: load_settled_def)
  with later have rest: "run es' ?s' = Some s''" by simp
  from ce have ce0: "cache ?s0 (''model:'' @ m_id t) = Some en" by simp
  note sw = load_then_swap[OF ce0, of c md scene]
  from find_SomeD[OF ld] have mem: "(c, url, md) \<in> set (loads s)" by simp
  from pending_remove_load[OF mem, of c] have p1: "pending_of ?s0 c + 1 = pending_of s c" by simp
  from run_bounded[OF reach, of c] p1 have p0: "pending_of ?s0 c = 0" and b: "c < next_tid s"
    by (auto split: if_splits)
  from sw(6)[of c] p0 have q: "pending_of ?s' c = 0" by simp
  from b have b': "c < next_tid ?s'" using step_next_tid[OF st] by simp
  from p1 have "pending_of s c \<noteq> 0" by simp
  with run_swapped[OF reach, of c] have none: "swaps c (trace s) = []" by blast
  have sw': "swaps c (trace ?s') = [(scene, md)]"
    unfolding sw(2) by (simp add: swaps_append none split: option.splits)
  have ft': "fetch_times c (trace ?s') = fetch_times c (trace s)"
    unfolding sw(2) by (simp add: fetch_times_append split: option.splits)
  from run_quiet[OF rest q b'] sw' ft'
  have fin: "swaps c (trace s'') = [(scene, md)]"
    "fetch_times c (trace s'') = fetch_times c (trace s)" "pending_of s'' c = 0" by simp_all
  have par: "parent ?s' =
         (case m_placeholder t of
            None \<Rightarrow> parent s
          | Some p \<Rightarrow> if parent s p = Some (m_group t) then (parent s)(p := None) else parent s)
         (scene \<mapsto> m_group t)"
    using sw(1) by (simp split: option.splits)
  have tr: "trace ?s' =
         trace s @ (case m_placeholder t of
                      None \<Rightarrow> []
                    | Some p \<Rightarrow> if parent s p = Some (m_group t) then [Dispose p] else [])
                 @ [OnSwap c scene md]"
    using sw(2) by (simp split: option.splits)
  have ca: "cache ?s' = (cache s)(''model:'' @ m_id t \<mapsto> en\<lparr>ce_loaded := True\<rparr>)"
    using sw(3) by simp
  show ?thesis
    by (intro exI[of _ ?s'] conjI) (rule st rest par tr ca sw(4) fin)+
qed

theorem swap_on_successful_load_witness:
  "trace (the (run (loaded_once @ [LoadModel ''m'' defaults, Advance 5000]) (init browser 0))) =
     [FetchModel 0 ''m'' 0, OnProgress 0 with_mesh, LoadGLB 0 (JStr ''t.glb''),
      Dispose 1, OnSwap 0 7 with_mesh]
   \<and> swaps 0 (trace (the (run (loaded_once @ [LoadModel ''m'' defaults, Advance 5000])
        (init browser 0)))) = [(7, with_mesh)]"
  using swap_on_successful_load[of
      "[LoadModel ''m'' defaults, FetchSettles 0 (Inr with_mesh)]" browser 0
      "the (run [LoadModel ''m'' defaults, FetchSettles 0 (Inr with_mesh)] (init browser 0))"
      0
      "\<lparr>m_id = ''m'', m_group = 0, m_placeholder = Some 1, m_poll = True,
        m_pollInterval = 5000, m_maxPollTime = 300000, m_startTime = 0\<rparr>"
      "JStr ''t.glb''" with_mesh
      "\<lparr>ce_group = Some 0, ce_loaded = False, ce_data = None, ce_ready = False\<rparr>"
      7 "[LoadModel ''m'' defaults, Advance 5000]"
      "the (run (loaded_once @ [LoadModel ''m'' defaults, Advance 5000]) (init browser 0))"]
  by (simp add: exec)

end
